theory Spec2Isabelle
  imports Complex_Main
begin

section \<open>Arrays and errors\<close>

text \<open>
  The converter \<^verbatim>\<open>dataset_tool_mri.py\<close> works on numpy arrays of floating-point
  samples. A two-axis array is modelled as the list of its rows and a three-axis volume as a
  list (axis 0) of lists (axis 1) of lists (axis 2). The samples of a loaded volume are
  finite double precision numbers, modelled as reals. The Fourier transforms of the Spectral
  Masker are modelled in exact real and complex arithmetic. The samples that \<^verbatim>\<open>genpng\<close>
  works on after its cast to single precision are IEEE values with their rounding, their
  infinities and NaN. Every Python exception the pipeline can raise is a value of
  \<open>error\<close>, returned on the left of a sum. The model covers the shifts, the Spectral
  Masker and the body of the loop over the volumes in \<^verbatim>\<open>genpng\<close>; the argument checks
  and the directory listing of \<^verbatim>\<open>genpng\<close>, the command line and the statistics script
  \<^verbatim>\<open>psnrstats.py\<close> are outside it.
\<close>

datatype error = AssertionError | ValueError | IndexError

type_synonym 'a array2 = "'a list list"
type_synonym 'a array3 = "'a list list list"

definition shape0 :: "'a list \<Rightarrow> nat" where
  "shape0 x = length x"

definition shape1 :: "'a list list \<Rightarrow> nat" where
  "shape1 x = (case x of [] \<Rightarrow> 0 | row # _ \<Rightarrow> length row)"

definition shape2 :: "'a list list list \<Rightarrow> nat" where
  "shape2 x = (case x of [] \<Rightarrow> 0 | plane # _ \<Rightarrow> shape1 plane)"

text \<open>
  numpy arrays are rectangular. \<open>is_array2 r c x\<close> says that the nested list \<open>x\<close> is an
  \<open>r\<close> by \<open>c\<close> array with at least one row and one column; \<open>is_array3\<close> is the same for
  volumes. A nested list without rows carries no column count: \<open>shape1\<close> is 0 for it.
\<close>

definition is_array2 :: "nat \<Rightarrow> nat \<Rightarrow> 'a array2 \<Rightarrow> bool" where
  "is_array2 r c x \<longleftrightarrow> 0 < r \<and> 0 < c \<and> length x = r \<and> list_all (\<lambda>row. length row = c) x"

definition is_array3 :: "nat \<Rightarrow> nat \<Rightarrow> nat \<Rightarrow> 'a array3 \<Rightarrow> bool" where
  "is_array3 r c d v \<longleftrightarrow> 0 < r \<and> length v = r \<and> list_all (is_array2 c d) v"

section \<open>The hand-rolled shift \<^verbatim>\<open>fftshift2d\<close>\<close>

text \<open>
  \<^verbatim>\<open>
  def fftshift2d(x, ifft=False):
      assert (len(x.shape) == 2) and all([(s % 2 == 1) for s in x.shape])
      s0 = (x.shape[0] // 2) + (0 if ifft else 1)
      s1 = (x.shape[1] // 2) + (0 if ifft else 1)
      x = np.concatenate([x[s0:, :], x[:s0, :]], axis=0)
      x = np.concatenate([x[:, s1:], x[:, :s1]], axis=1)
      return x
  \<close>
  The number of axes is fixed by the type; the failing assertion is the error value.
\<close>

definition fftshift2d :: "'a array2 \<Rightarrow> bool \<Rightarrow> error + 'a array2" where
  "fftshift2d x ifft =
     (if \<not> (shape0 x mod 2 = 1 \<and> shape1 x mod 2 = 1) then Inl AssertionError
      else
        let s0 = shape0 x div 2 + (if ifft then 0 else 1);
            s1 = shape1 x div 2 + (if ifft then 0 else 1);
            y = drop s0 x @ take s0 x;
            z = map (\<lambda>row. drop s1 row @ take s1 row) y
        in Inr z)"

section \<open>The library shifts \<^verbatim>\<open>np.fft.fftshift\<close> and \<^verbatim>\<open>np.fft.ifftshift\<close>\<close>

text \<open>
  numpy implements both shifts as a roll of every axis: \<^verbatim>\<open>fftshift\<close> rolls axis \<open>a\<close> by
  \<^verbatim>\<open>dim // 2\<close> and \<^verbatim>\<open>ifftshift\<close> by \<^verbatim>\<open>-(dim // 2)\<close>. \<^verbatim>\<open>np.roll(x, shift)\<close> moves the
  element at index \<open>i\<close> to index \<open>(i + shift) mod n\<close>: with \<open>offset = shift mod n\<close> the
  result is \<^verbatim>\<open>x[n-offset:]\<close> followed by \<^verbatim>\<open>x[:n-offset]\<close>.
\<close>

definition np_roll :: "int \<Rightarrow> 'a list \<Rightarrow> 'a list" where
  "np_roll shift xs =
     (let n = length xs in
      if n = 0 then xs
      else let offset = nat (shift mod int n)
           in drop (n - offset) xs @ take (n - offset) xs)"

definition np_fftshift :: "'a array2 \<Rightarrow> 'a array2" where
  "np_fftshift x =
     map (np_roll (int (shape1 x div 2))) (np_roll (int (shape0 x div 2)) x)"

definition np_ifftshift :: "'a array2 \<Rightarrow> 'a array2" where
  "np_ifftshift x =
     map (np_roll (- int (shape1 x div 2))) (np_roll (- int (shape0 x div 2)) x)"

text \<open>
  The two shifts as the specification words them: per axis, split at a position and swap
  the two parts; the centring step splits at \<open>floor(length/2) + 1\<close>, the un-centring step at
  \<open>floor(length/2)\<close>.
\<close>

definition spec_swap_halves :: "nat \<Rightarrow> 'a list \<Rightarrow> 'a list" where
  "spec_swap_halves k xs = drop k xs @ take k xs"

definition spec_center :: "'a array2 \<Rightarrow> 'a array2" where
  "spec_center x =
     map (spec_swap_halves (shape1 x div 2 + 1)) (spec_swap_halves (shape0 x div 2 + 1) x)"

definition spec_uncenter :: "'a array2 \<Rightarrow> 'a array2" where
  "spec_uncenter x =
     map (spec_swap_halves (shape1 x div 2)) (spec_swap_halves (shape0 x div 2) x)"

section \<open>The random source\<close>

text \<open>
  \<^verbatim>\<open>np.random.rand\<close> reads the process-wide generator. The generator is made explicit as
  the sequence of the uniform samples it will still deliver; \<open>unit_draws\<close> is numpy's
  contract that each sample lies in the half-open interval from 0 to 1.
  \<open>random_rand r c\<close> fills an \<open>r\<close> by \<open>c\<close> array in row-major order and returns the
  advanced generator.
\<close>

type_synonym rng = "nat \<Rightarrow> real"

definition unit_draws :: "rng \<Rightarrow> bool" where
  "unit_draws g \<longleftrightarrow> (\<forall>k. 0 \<le> g k \<and> g k < 1)"

definition advance :: "nat \<Rightarrow> rng \<Rightarrow> rng" where
  "advance n g = (\<lambda>k. g (n + k))"

definition random_rand :: "nat \<Rightarrow> nat \<Rightarrow> rng \<Rightarrow> real array2 \<times> rng" where
  "random_rand r c g =
     (map (\<lambda>i. map (\<lambda>j. g (i * c + j)) [0..<c]) [0..<r], advance (r * c) g)"

section \<open>The discrete Fourier transforms of numpy\<close>

text \<open>
  \<^verbatim>\<open>np.fft.fft\<close> computes \<open>A\<^sub>k = \<Sum>\<^sub>m a\<^sub>m exp(-2\<pi>i mk/n)\<close> and \<^verbatim>\<open>np.fft.ifft\<close> computes
  \<open>a\<^sub>m = (1/n) \<Sum>\<^sub>k A\<^sub>k exp(2\<pi>i mk/n)\<close>. The two-dimensional transforms apply the
  one-dimensional one along the last axis (every row) and then along the first axis (every
  column).
\<close>

definition np_fft :: "complex list \<Rightarrow> complex list" where
  "np_fft a =
     (let n = length a in
      map (\<lambda>k. \<Sum>m<n. a ! m * cis (- (2 * pi * real m * real k / real n))) [0..<n])"

definition np_ifft :: "complex list \<Rightarrow> complex list" where
  "np_ifft a =
     (let n = length a in
      map (\<lambda>m. (\<Sum>k<n. a ! k * cis (2 * pi * real m * real k / real n)) / of_nat n) [0..<n])"

definition columns :: "'a array2 \<Rightarrow> 'a array2" where
  "columns x = map (\<lambda>j. map (\<lambda>row. row ! j) x) [0..<shape1 x]"

definition along_axis1 :: "('a list \<Rightarrow> 'a list) \<Rightarrow> 'a array2 \<Rightarrow> 'a array2" where
  "along_axis1 f x = map f x"

definition along_axis0 :: "('a list \<Rightarrow> 'a list) \<Rightarrow> 'a array2 \<Rightarrow> 'a array2" where
  "along_axis0 f x = columns (map f (columns x))"

definition np_fft2 :: "complex array2 \<Rightarrow> complex array2" where
  "np_fft2 x = along_axis0 np_fft (along_axis1 np_fft x)"

definition np_ifft2 :: "complex array2 \<Rightarrow> complex array2" where
  "np_ifft2 x = along_axis0 np_ifft (along_axis1 np_ifft x)"

section \<open>The Spectral Masker \<^verbatim>\<open>undersample_kspace\<close>\<close>

text \<open>
  \<^verbatim>\<open>
  def undersample_kspace(slice, mask_fraction=0.5):
      fft_slice = np.fft.fft2(slice)
      fft_slice = np.fft.fftshift(fft_slice)
      mask = np.random.rand(*fft_slice.shape) < mask_fraction
      undersampled_fft = fft_slice * mask
      undersampled_fft = np.fft.ifftshift(undersampled_fft)
      return np.abs(np.fft.ifft2(undersampled_fft))
  \<close>
  The function checks nothing about the shape of its argument. The only failure is numpy's
  own: a transform along an axis of length zero raises \<^verbatim>\<open>ValueError\<close>, before any sample is
  drawn. Multiplying by the boolean mask multiplies by 1 where the mask holds and by 0
  elsewhere. The result comes with the generator left behind by the draw.
\<close>

definition undersample_kspace :: "real array2 \<Rightarrow> real \<Rightarrow> rng \<Rightarrow> (error + real array2) \<times> rng" where
  "undersample_kspace slice mask_fraction g =
     (if shape0 slice = 0 \<or> shape1 slice = 0 then (Inl ValueError, g)
      else
        let fft_slice = np_fft2 (map (map complex_of_real) slice);
            fft_shifted = np_fftshift fft_slice;
            (u, g') = random_rand (shape0 fft_shifted) (shape1 fft_shifted) g;
            mask = map (map (\<lambda>v. v < mask_fraction)) u;
            undersampled_fft = map2 (map2 (\<lambda>z b. z * of_bool b)) fft_shifted mask;
            unshifted = np_ifftshift undersampled_fft
        in (Inr (map (map cmod) (np_ifft2 unshifted)), g'))"

section \<open>IEEE values and single precision rounding\<close>

text \<open>
  An IEEE value is a finite number, the negative zero, an infinity or NaN; \<open>Num 0\<close> is the
  positive zero. \<open>fp_negative\<close> is the sign bit.
\<close>

datatype fp = Num real | NegZero | PosInf | NegInf | NaN

instantiation fp :: zero
begin

definition zero_fp :: fp where
  "zero_fp = Num 0"

instance ..

end

definition fp_negative :: "fp \<Rightarrow> bool" where
  "fp_negative a =
     (case a of Num r \<Rightarrow> r < 0 | NegZero \<Rightarrow> True | NegInf \<Rightarrow> True | PosInf \<Rightarrow> False | NaN \<Rightarrow> False)"

definition fp_finite :: "fp \<Rightarrow> bool" where
  "fp_finite a = (case a of Num r \<Rightarrow> True | NegZero \<Rightarrow> True | _ \<Rightarrow> False)"

definition fp_infinite :: "fp \<Rightarrow> bool" where
  "fp_infinite a \<longleftrightarrow> a = PosInf \<or> a = NegInf"

definition fp_value :: "fp \<Rightarrow> real" where
  "fp_value a = (case a of Num r \<Rightarrow> r | _ \<Rightarrow> 0)"

definition fp_is_zero :: "fp \<Rightarrow> bool" where
  "fp_is_zero a \<longleftrightarrow> fp_finite a \<and> fp_value a = 0"

definition fp_rank :: "fp \<Rightarrow> int" where
  "fp_rank a = (case a of NegInf \<Rightarrow> - 1 | PosInf \<Rightarrow> 1 | _ \<Rightarrow> 0)"

text \<open>
  The IEEE comparisons: false as soon as one side is NaN, the two zeros equal.
\<close>

definition fp_le :: "fp \<Rightarrow> fp \<Rightarrow> bool" where
  "fp_le a b \<longleftrightarrow>
     a \<noteq> NaN \<and> b \<noteq> NaN \<and>
     (fp_rank a < fp_rank b \<or> (fp_rank a = fp_rank b \<and> fp_value a \<le> fp_value b))"

definition fp_less :: "fp \<Rightarrow> fp \<Rightarrow> bool" where
  "fp_less a b \<longleftrightarrow> fp_le a b \<and> \<not> fp_le b a"

text \<open>
  Rounding to single precision, to nearest with ties to even. A non-zero real \<open>x\<close> with
  \<open>2 ^ e \<le> |x| < 2 ^ (e + 1)\<close> is rounded to a multiple of \<open>2 ^ (e - 23)\<close>; below the
  smallest normal number \<open>2 ^ (-126)\<close> the spacing stays \<open>2 ^ (-149)\<close>. A result beyond
  the largest finite number \<open>FLT_MAX\<close> becomes an infinity, a result of zero keeps the sign
  of what was rounded.
\<close>

definition FLT_MAX :: real where
  "FLT_MAX = (2 ^ 24 - 1) * 2 ^ 104"

definition round_half_even :: "real \<Rightarrow> int" where
  "round_half_even y =
     (let f = \<lfloor>y\<rfloor>; d = y - of_int f in
      if d < 1 / 2 then f
      else if 1 / 2 < d then f + 1
      else if even f then f else f + 1)"

definition ulp32 :: "real \<Rightarrow> real" where
  "ulp32 x = 2 powi (max \<lfloor>log 2 \<bar>x\<bar>\<rfloor> (- 126) - 23)"

definition round32 :: "real \<Rightarrow> real" where
  "round32 x = (if x = 0 then 0 else of_int (round_half_even (x / ulp32 x)) * ulp32 x)"

definition fp_round32 :: "bool \<Rightarrow> real \<Rightarrow> fp" where
  "fp_round32 negative y =
     (let r = round32 y in
      if FLT_MAX < \<bar>r\<bar> then (if negative then NegInf else PosInf)
      else if r = 0 then (if negative then NegZero else Num 0)
      else Num r)"

text \<open>
  \<^verbatim>\<open>.astype(np.float32)\<close> on a finite double, and the single precision division
  \<^verbatim>\<open>a / b\<close>.
\<close>

definition astype_float32 :: "real \<Rightarrow> fp" where
  "astype_float32 x = fp_round32 (x < 0) x"

definition fp_divide32 :: "fp \<Rightarrow> fp \<Rightarrow> fp" where
  "fp_divide32 a b =
     (if a = NaN \<or> b = NaN then NaN
      else if fp_infinite a \<and> fp_infinite b then NaN
      else if fp_is_zero a \<and> fp_is_zero b then NaN
      else if fp_infinite a \<or> fp_is_zero b
        then (if fp_negative a = fp_negative b then PosInf else NegInf)
      else if fp_infinite b
        then (if fp_negative a = fp_negative b then Num 0 else NegZero)
      else fp_round32 (fp_negative a \<noteq> fp_negative b) (fp_value a / fp_value b))"

text \<open>
  \<^verbatim>\<open>np.minimum\<close> and \<^verbatim>\<open>np.maximum\<close> return their first argument when the comparison
  holds or the first argument is NaN, and their second argument otherwise, so a NaN on
  either side comes out. The product is the double precision product; on the finite values
  it is modelled exactly (a single precision number between 0 and 1 times 255 is a double
  precision number).
\<close>

definition fp_minimum :: "fp \<Rightarrow> fp \<Rightarrow> fp" where
  "fp_minimum a b = (if fp_le a b \<or> a = NaN then a else b)"

definition fp_maximum :: "fp \<Rightarrow> fp \<Rightarrow> fp" where
  "fp_maximum a b = (if fp_le b a \<or> a = NaN then a else b)"

definition fp_times :: "fp \<Rightarrow> fp \<Rightarrow> fp" where
  "fp_times a b =
     (if a = NaN \<or> b = NaN then NaN
      else if (fp_infinite a \<and> fp_is_zero b) \<or> (fp_is_zero a \<and> fp_infinite b) then NaN
      else if fp_infinite a \<or> fp_infinite b
        then (if fp_negative a = fp_negative b then PosInf else NegInf)
      else if fp_value a * fp_value b = 0
        then (if fp_negative a = fp_negative b then Num 0 else NegZero)
      else Num (fp_value a * fp_value b))"

section \<open>The per-volume pipeline of \<^verbatim>\<open>genpng\<close>\<close>

definition OUT_RESOLUTION :: nat where
  "OUT_RESOLUTION = 256"

definition slice_min :: nat where
  "slice_min = 25"

definition slice_max :: nat where
  "slice_max = 125"

text \<open>
  \<^verbatim>\<open>np.max\<close> of an array without elements raises \<^verbatim>\<open>ValueError\<close>; otherwise it reduces the
  flattened array with \<^verbatim>\<open>np.maximum\<close> from the left.
\<close>

definition np_max :: "fp list \<Rightarrow> error + fp" where
  "np_max xs = (case xs of [] \<Rightarrow> Inl ValueError | x # rest \<Rightarrow> Inr (foldl fp_maximum x rest))"

text \<open>
  Slice Normalizer.
  \<^verbatim>\<open>
  img = nii_img.get_fdata().astype(np.float32)
  img = img / np.max(img)
  \<close>
  The cast rounds every sample to single precision; the maximum and the division are single
  precision operations. Nothing is raised when the maximum is zero or infinite: the
  quotients are NaN or infinities then.
\<close>

definition normalize_volume :: "real array3 \<Rightarrow> error + fp array3" where
  "normalize_volume data =
     (let img = map (map (map astype_float32)) data in
      case np_max (concat (concat img)) of
        Inl e \<Rightarrow> Inl e
      | Inr m \<Rightarrow> Inr (map (map (map (\<lambda>v. fp_divide32 v m))) img))"

text \<open>
  \<^verbatim>\<open>img[:, :, s]\<close> with a non-negative \<open>s\<close>: \<^verbatim>\<open>IndexError\<close> when \<open>s\<close> is not below the
  length of the last axis.
\<close>

definition take_slice :: "'a array3 \<Rightarrow> nat \<Rightarrow> error + 'a array2" where
  "take_slice img s =
     (if s < shape2 img then Inr (map (map (\<lambda>line. line ! s)) img) else Inl IndexError)"

text \<open>
  The call \<^verbatim>\<open>undersample_kspace(slice)\<close> of the loop, with the default fraction 0.5. A
  slice of finite samples goes through \<open>undersample_kspace\<close>. For a slice that holds a NaN
  or an infinity numpy raises nothing, draws the mask as always and returns an array of the
  shape of the slice; which IEEE values it holds depends on the transform routine and is
  left open: the parameter \<open>cells\<close> gives them.
\<close>

type_synonym nonfinite_cells = "fp array2 \<Rightarrow> rng \<Rightarrow> nat \<Rightarrow> nat \<Rightarrow> fp"

definition undersample_slice ::
  "nonfinite_cells \<Rightarrow> fp array2 \<Rightarrow> rng \<Rightarrow> (error + fp array2) \<times> rng" where
  "undersample_slice cells slice g =
     (if list_all (list_all fp_finite) slice
      then (case undersample_kspace (map (map fp_value) slice) (1 / 2) g of
              (Inl e, g') \<Rightarrow> (Inl e, g')
            | (Inr out, g') \<Rightarrow> (Inr (map (map Num) out), g'))
      else (Inr (map (\<lambda>i. map (\<lambda>j. cells slice g i j) [0..<shape1 slice]) [0..<shape0 slice]),
            advance (shape0 slice * shape1 slice) g))"

text \<open>
  Canvas Compositor.
  \<^verbatim>\<open>
  hborder = (np.asarray([OUT_RESOLUTION, OUT_RESOLUTION]) - nii_img.shape[0:2]) // 2
  output = np.zeros([OUT_RESOLUTION, OUT_RESOLUTION])
  output[hborder[0] : hborder[0] + nii_img.shape[0],
         hborder[1] : hborder[1] + nii_img.shape[1]] = slice
  \<close>
  The border is a signed integer with floor division. \<open>py_slice n start stop\<close> gives the
  bounds Python selects on an axis of length \<open>n\<close>: a negative bound counts from the end, and
  both are clipped to the axis. The assignment needs the source extent along each axis to
  equal the selected extent or to be 1 (then the single row or column is repeated);
  otherwise numpy raises \<^verbatim>\<open>ValueError\<close>. The compositor moves samples and looks at none,
  so it is the same for real and for IEEE samples.
\<close>

definition hborder :: "nat \<Rightarrow> int" where
  "hborder n = (int OUT_RESOLUTION - int n) div 2"

definition py_slice :: "nat \<Rightarrow> int \<Rightarrow> int \<Rightarrow> nat \<times> nat" where
  "py_slice n start stop =
     (let adj = (\<lambda>i. if i < 0 then max 0 (i + int n) else min i (int n))
      in (nat (adj start), nat (adj stop)))"

definition set_region ::
  "'a array2 \<Rightarrow> nat \<times> nat \<Rightarrow> nat \<times> nat \<Rightarrow> 'a array2 \<Rightarrow> error + 'a array2" where
  "set_region out rows cols src =
     (let (lo0, hi0) = rows; (lo1, hi1) = cols in
      if (shape0 src = hi0 - lo0 \<or> shape0 src = 1) \<and> (shape1 src = hi1 - lo1 \<or> shape1 src = 1)
      then Inr (map (\<lambda>i. map (\<lambda>j.
                   if lo0 \<le> i \<and> i < hi0 \<and> lo1 \<le> j \<and> j < hi1
                   then src ! (if shape0 src = 1 then 0 else i - lo0)
                            ! (if shape1 src = 1 then 0 else j - lo1)
                   else out ! i ! j) [0..<shape1 out]) [0..<shape0 out])
      else Inl ValueError)"

definition composite :: "nat \<Rightarrow> nat \<Rightarrow> 'a::zero array2 \<Rightarrow> error + 'a array2" where
  "composite n0 n1 slice =
     (let output = replicate OUT_RESOLUTION (replicate OUT_RESOLUTION 0)
      in set_region output
           (py_slice OUT_RESOLUTION (hborder n0) (hborder n0 + int n0))
           (py_slice OUT_RESOLUTION (hborder n1) (hborder n1 + int n1))
           slice)"

text \<open>
  Range Clamper.
  \<^verbatim>\<open>
  output = np.minimum(output, 1.0)
  output = np.maximum(output, 0.0)
  output = output * 255
  \<close>
  \<open>clamp_and_scale\<close> is the three lines on a canvas of finite samples and
  \<open>clamp_and_scale_ieee\<close> the same three lines on IEEE samples, as the loop runs them.
  \<open>spec_clip\<close> is \<^verbatim>\<open>clip(value, lo, hi)\<close> of the specification, as numpy defines it.
\<close>

definition clamp_and_scale :: "real array2 \<Rightarrow> real array2" where
  "clamp_and_scale output =
     (let o1 = map (map (\<lambda>v. min v 1)) output;
          o2 = map (map (\<lambda>v. max v 0)) o1
      in map (map (\<lambda>v. v * 255)) o2)"

definition clamp_and_scale_ieee :: "fp array2 \<Rightarrow> fp array2" where
  "clamp_and_scale_ieee output =
     (let o1 = map (map (\<lambda>v. fp_minimum v (Num 1))) output;
          o2 = map (map (\<lambda>v. fp_maximum v (Num 0))) o1
      in map (map (\<lambda>v. fp_times v (Num 255))) o2)"

definition spec_clip :: "real \<Rightarrow> real \<Rightarrow> real \<Rightarrow> real" where
  "spec_clip v lo hi = min (max v lo) hi"

text \<open>
  The transform of one depth index (lines 72 to 81): extract, optionally mask, composite,
  clamp and scale.
\<close>

definition slice_raster ::
  "nonfinite_cells \<Rightarrow> bool \<Rightarrow> nat \<Rightarrow> nat \<Rightarrow> fp array3 \<Rightarrow> nat \<Rightarrow> rng
     \<Rightarrow> (error + fp array2) \<times> rng" where
  "slice_raster cells undersample n0 n1 img s g =
     (case take_slice img s of
        Inl e \<Rightarrow> (Inl e, g)
      | Inr slice \<Rightarrow>
          (case (if undersample then undersample_slice cells slice g else (Inr slice, g)) of
             (Inl e, g') \<Rightarrow> (Inl e, g')
           | (Inr slice', g') \<Rightarrow>
               (case composite n0 n1 slice' of
                  Inl e \<Rightarrow> (Inl e, g')
                | Inr output \<Rightarrow> (Inr (clamp_and_scale_ieee output), g'))))"

text \<open>
  The guard \<^verbatim>\<open>np.max(output) > 1.0\<close>: false when the maximum is NaN.
\<close>

definition max_exceeds_one :: "fp array2 \<Rightarrow> error + bool" where
  "max_exceeds_one output =
     (case np_max (concat output) of
        Inl e \<Rightarrow> Inl e
      | Inr m \<Rightarrow> Inr (fp_less (Num 1) m))"

text \<open>
  File names. \<^verbatim>\<open>name = os.path.basename(nii_file).split(".")[0]\<close> and
  \<^verbatim>\<open>outname = os.path.join(out_directory, "%s_%03d.png" % (name, s))\<close>, with POSIX paths.
\<close>

fun fmt_d :: "nat \<Rightarrow> string" where
  "fmt_d n =
     (if n < 10 then [''0123456789'' ! n]
      else fmt_d (n div 10) @ [''0123456789'' ! (n mod 10)])"

declare fmt_d.simps [simp del]

definition fmt_03d :: "nat \<Rightarrow> string" where
  "fmt_03d n = replicate (3 - length (fmt_d n)) CHR ''0'' @ fmt_d n"

definition os_path_basename :: "string \<Rightarrow> string" where
  "os_path_basename p = rev (takeWhile (\<lambda>c. c \<noteq> CHR ''/'') (rev p))"

definition os_path_join :: "string \<Rightarrow> string \<Rightarrow> string" where
  "os_path_join a b =
     (if b \<noteq> [] \<and> hd b = CHR ''/'' then b
      else if a = [] \<or> last a = CHR ''/'' then a @ b
      else a @ ''/'' @ b)"

definition volume_name :: "string \<Rightarrow> string" where
  "volume_name nii_file = takeWhile (\<lambda>c. c \<noteq> CHR ''.'') (os_path_basename nii_file)"

definition outname :: "string \<Rightarrow> string \<Rightarrow> nat \<Rightarrow> string" where
  "outname out_directory name s = os_path_join out_directory (name @ ''_'' @ fmt_03d s @ ''.png'')"

text \<open>
  The world the loop acts on: the log of the files saved so far, in order, each with the
  raster handed to the image writer, and the random source.
\<close>

record world =
  files :: "(string \<times> fp array2) list"
  rand :: rng

text \<open>
  One iteration of \<^verbatim>\<open>for s in range(slice_min, slice_max)\<close>: the transform, then
  \<^verbatim>\<open>if np.max(output) > 1.0\<close> the save. An exception ends the run; what was saved before
  stays saved.
\<close>

definition genpng_slice ::
  "nonfinite_cells \<Rightarrow> bool \<Rightarrow> string \<Rightarrow> string \<Rightarrow> nat \<Rightarrow> nat \<Rightarrow> fp array3 \<Rightarrow> nat \<Rightarrow> world
     \<Rightarrow> error option \<times> world" where
  "genpng_slice cells undersample out_directory name n0 n1 img s w =
     (case slice_raster cells undersample n0 n1 img s (rand w) of
        (Inl e, g') \<Rightarrow> (Some e, w\<lparr>rand := g'\<rparr>)
      | (Inr output, g') \<Rightarrow>
          (case max_exceeds_one output of
             Inl e \<Rightarrow> (Some e, w\<lparr>rand := g'\<rparr>)
           | Inr exceeds \<Rightarrow>
               if exceeds
               then (None, \<lparr>files = files w @ [(outname out_directory name s, output)], rand = g'\<rparr>)
               else (None, w\<lparr>rand := g'\<rparr>)))"

fun genpng_slices ::
  "nonfinite_cells \<Rightarrow> bool \<Rightarrow> string \<Rightarrow> string \<Rightarrow> nat \<Rightarrow> nat \<Rightarrow> fp array3 \<Rightarrow> nat list \<Rightarrow> world
     \<Rightarrow> error option \<times> world" where
  "genpng_slices cells undersample out_directory name n0 n1 img [] w = (None, w)"
| "genpng_slices cells undersample out_directory name n0 n1 img (s # ss) w =
     (case genpng_slice cells undersample out_directory name n0 n1 img s w of
        (Some e, w') \<Rightarrow> (Some e, w')
      | (None, w') \<Rightarrow> genpng_slices cells undersample out_directory name n0 n1 img ss w')"

text \<open>
  The body of \<^verbatim>\<open>for nii_file in nii_files\<close> for one loaded volume \<open>nii_img\<close>.
\<close>

definition genpng_volume ::
  "nonfinite_cells \<Rightarrow> bool \<Rightarrow> string \<Rightarrow> string \<Rightarrow> real array3 \<Rightarrow> world \<Rightarrow> error option \<times> world" where
  "genpng_volume cells undersample out_directory nii_file nii_img w =
     (let name = volume_name nii_file;
          n0 = shape0 nii_img;
          n1 = shape1 nii_img
      in case normalize_volume nii_img of
           Inl e \<Rightarrow> (Some e, w)
         | Inr img \<Rightarrow>
             genpng_slices cells undersample out_directory name n0 n1 img
               [slice_min..<slice_max] w)"

text \<open>
  Predicates of the specification on volumes: all intensities non-negative; all single
  precision casts finite; all normalised intensities between 0 and 1.
\<close>

definition nonnegative :: "real array3 \<Rightarrow> bool" where
  "nonnegative v \<longleftrightarrow> list_all (list_all (list_all (\<lambda>x. 0 \<le> x))) v"

definition float32_range :: "real array3 \<Rightarrow> bool" where
  "float32_range v \<longleftrightarrow> list_all (list_all (list_all (\<lambda>x. \<bar>round32 x\<bar> \<le> FLT_MAX))) v"

definition fp_in_unit :: "fp \<Rightarrow> bool" where
  "fp_in_unit a \<longleftrightarrow> fp_le (Num 0) a \<and> fp_le a (Num 1)"

definition unit_range :: "fp array3 \<Rightarrow> bool" where
  "unit_range v \<longleftrightarrow> list_all (list_all (list_all fp_in_unit)) v"

text \<open>
  The generator as it stands when the loop reaches depth index \<open>s\<close>: with the undersample
  flag set, every earlier index of the window has drawn one sample per cell of its slice.
\<close>

definition rng_before :: "bool \<Rightarrow> nat \<Rightarrow> nat \<Rightarrow> rng \<Rightarrow> nat \<Rightarrow> rng" where
  "rng_before undersample n0 n1 g s =
     (if undersample then advance ((s - slice_min) * (n0 * n1)) g else g)"

text \<open>
  \<open>in_region n i\<close>: the index \<open>i\<close> of a canvas axis lies in the centred region that a slice
  axis of length \<open>n\<close> is written to.
\<close>

definition in_region :: "nat \<Rightarrow> nat \<Rightarrow> bool" where
  "in_region n i \<longleftrightarrow> (OUT_RESOLUTION - n) div 2 \<le> i \<and> i < (OUT_RESOLUTION - n) div 2 + n"

section \<open>Shape lemmas\<close>

lemma is_array2_shape0: "is_array2 r c x \<Longrightarrow> shape0 x = r"
  by (simp add: is_array2_def shape0_def)

lemma is_array2_shape1: "is_array2 r c x \<Longrightarrow> shape1 x = c"
  by (cases x) (auto simp: is_array2_def shape1_def)

lemma is_array2_row: "is_array2 r c x \<Longrightarrow> row \<in> set x \<Longrightarrow> length row = c"
  by (simp add: is_array2_def list_all_iff)

lemma np_roll_odd_forward:
  assumes "odd (length xs)"
  shows "np_roll (int (length xs div 2)) xs = drop (length xs div 2 + 1) xs @ take (length xs div 2 + 1) xs"
proof -
  obtain m where m: "length xs = 2 * m + 1"
    using assms by (auto elim: oddE)
  have "int m mod (2 * int m + 1) = int m"
    by simp
  then show ?thesis
    using m by (simp add: np_roll_def Let_def)
qed

lemma np_roll_backward:
  "np_roll (- int (length xs div 2)) xs = drop (length xs div 2) xs @ take (length xs div 2) xs"
proof (cases "length xs = 0")
  case True
  then show ?thesis by (simp add: np_roll_def)
next
  case False
  define n where "n = length xs"
  define h where "h = n div 2"
  have n0: "0 < n" using False by (simp add: n_def)
  have hn: "h \<le> n" by (simp add: h_def)
  show ?thesis
  proof (cases "h = 0")
    case True
    then have "n = 1" using n0 unfolding h_def by arith
    then show ?thesis
      using True by (simp add: np_roll_def Let_def n_def[symmetric] h_def[symmetric] )
  next
    case hpos: False
    have "(- int h) mod int n = int n - int h"
    proof -
      have "(- int h) mod int n = (int n - int h) mod int n"
        by (metis add.commute mod_add_self2 uminus_add_conv_diff)
      also have "\<dots> = int n - int h"
        using hpos hn n0 by (intro mod_pos_pos_trivial) auto
      finally show ?thesis .
    qed
    then have "nat ((- int h) mod int n) = n - h"
      using hn by simp
    then show ?thesis
      using n0 hn by (simp add: np_roll_def Let_def n_def[symmetric] h_def[symmetric])
  qed
qed


section \<open>The hand-rolled shift is its own inverse pair\<close>

lemma is_array2_swap_rows:
  "is_array2 r c x \<Longrightarrow> is_array2 r c (drop k x @ take k x)"
  by (auto simp: is_array2_def list_all_iff dest: in_set_dropD in_set_takeD)

lemma is_array2_swap_cols:
  "is_array2 r c x \<Longrightarrow> is_array2 r c (map (\<lambda>row. drop k row @ take k row) x)"
  by (auto simp: is_array2_def list_all_iff)

lemma fftshift2d_odd:
  assumes "is_array2 r c x" "odd r" "odd c"
  shows "fftshift2d x ifft =
     Inr (map (\<lambda>row. drop (c div 2 + (if ifft then 0 else 1)) row @ take (c div 2 + (if ifft then 0 else 1)) row)
           (drop (r div 2 + (if ifft then 0 else 1)) x @ take (r div 2 + (if ifft then 0 else 1)) x))"
  using assms
  by (simp add: fftshift2d_def is_array2_shape0[OF assms(1)] is_array2_shape1[OF assms(1)] Let_def odd_iff_mod_2_eq_one)

lemma fftshift2d_even:
  assumes "is_array2 r c x" "even r \<or> even c"
  shows "fftshift2d x ifft = Inl AssertionError"
  using assms
  by (auto simp add: fftshift2d_def is_array2_shape0[OF assms(1)] is_array2_shape1[OF assms(1)] Let_def odd_iff_mod_2_eq_one)

lemma swap_halves_odd_inverse:
  assumes "odd (length xs)"
  shows "(let ys = drop (length xs div 2 + 1) xs @ take (length xs div 2 + 1) xs
          in drop (length xs div 2) ys @ take (length xs div 2) ys) = xs"
proof -
  obtain m where m: "length xs = 2 * m + 1"
    using assms by (auto elim: oddE)
  have d: "length xs div 2 = m" using m by simp
  have "m = length xs - (m + 1)" using m by simp
  show ?thesis unfolding d Let_def
    using m by simp
qed

text \<open>
  C9. On an array with both axis lengths odd, the forward shift of \<^verbatim>\<open>fftshift2d\<close>
  (\<open>ifft = False\<close>) followed by its inverse shift (\<open>ifft = True\<close>) gives back the array.
\<close>

theorem fftshift2d_roundtrip:
  assumes "is_array2 r c x" and "odd r" and "odd c"
  shows "\<exists>y. fftshift2d x False = Inr y \<and> fftshift2d y True = Inr x"
proof -
  define y where "y = drop (r div 2 + 1) x @ take (r div 2 + 1) x"
  define z where "z = map (\<lambda>row. drop (c div 2 + 1) row @ take (c div 2 + 1) row) y"
  have fwd: "fftshift2d x False = Inr z"
    using fftshift2d_odd[OF assms, of False] by (simp add: y_def z_def)
  have ya: "is_array2 r c y"
    unfolding y_def by (rule is_array2_swap_rows[OF assms(1)])
  have za: "is_array2 r c z"
    unfolding z_def by (rule is_array2_swap_cols[OF ya])
  have lx: "length x = r" using assms(1) by (simp add: is_array2_def)
  have rows: "map (\<lambda>row. drop (c div 2) row @ take (c div 2) row) z = y"
  proof -
    have "map (\<lambda>row. drop (c div 2) row @ take (c div 2) row) z =
          map (\<lambda>row. let ys = drop (length row div 2 + 1) row @ take (length row div 2 + 1) row
                     in drop (length row div 2) ys @ take (length row div 2) ys) y"
      unfolding z_def map_map using is_array2_row[OF ya]
      by (intro map_cong) (simp_all add: Let_def)
    also have "\<dots> = map (\<lambda>row. row) y"
      using is_array2_row[OF ya] assms(3)
      by (intro map_cong refl swap_halves_odd_inverse) simp
    finally show ?thesis by simp
  qed
  have "drop (r div 2) y @ take (r div 2) y = x"
    using swap_halves_odd_inverse[of x] assms(2) lx by (simp add: y_def Let_def)
  moreover have "map (\<lambda>row. drop (c div 2) row @ take (c div 2) row) (drop (r div 2) z @ take (r div 2) z)
      = drop (r div 2) y @ take (r div 2) y"
    unfolding rows[symmetric] by (simp add: drop_map take_map)
  ultimately have "fftshift2d z True = Inr x"
    using fftshift2d_odd[OF za assms(2,3), of True] by simp
  with fwd show ?thesis by blast
qed

theorem fftshift2d_roundtrip_witness:
  "\<exists>y. fftshift2d [[1, 2, 3], [4, 5, 6], [7, 8, 9 :: int]] False = Inr y
       \<and> fftshift2d y True = Inr [[1, 2, 3], [4, 5, 6], [7, 8, 9]]"
  using fftshift2d_roundtrip [of 3 3 "[[1, 2, 3], [4, 5, 6], [7, 8, 9 :: int]]"]
  by (simp add: is_array2_def)



section \<open>The library shifts against the hand-rolled shift\<close>

lemma np_fftshift_odd:
  assumes "is_array2 r c x" "odd r" "odd c"
  shows "np_fftshift x =
     map (\<lambda>row. drop (c div 2 + 1) row @ take (c div 2 + 1) row)
       (drop (r div 2 + 1) x @ take (r div 2 + 1) x)"
proof -
  have lx: "length x = r" using assms(1) by (simp add: is_array2_def)
  have outer: "np_roll (int (r div 2)) x = drop (r div 2 + 1) x @ take (r div 2 + 1) x"
    using np_roll_odd_forward[of x] assms(2) lx by simp
  have ya: "is_array2 r c (drop (r div 2 + 1) x @ take (r div 2 + 1) x)"
    by (rule is_array2_swap_rows[OF assms(1)])
  have "map (np_roll (int (c div 2))) (drop (r div 2 + 1) x @ take (r div 2 + 1) x) =
        map (\<lambda>row. drop (c div 2 + 1) row @ take (c div 2 + 1) row)
          (drop (r div 2 + 1) x @ take (r div 2 + 1) x)"
  proof (rule map_cong[OF refl])
    fix row assume "row \<in> set (drop (r div 2 + 1) x @ take (r div 2 + 1) x)"
    then have "length row = c" by (rule is_array2_row[OF ya])
    then show "np_roll (int (c div 2)) row = drop (c div 2 + 1) row @ take (c div 2 + 1) row"
      using np_roll_odd_forward[of row] assms(3) by simp
  qed
  then show ?thesis
    by (simp add: np_fftshift_def is_array2_shape0[OF assms(1)] is_array2_shape1[OF assms(1)] outer)
qed

lemma np_ifftshift_split:
  assumes "is_array2 r c x"
  shows "np_ifftshift x =
     map (\<lambda>row. drop (c div 2) row @ take (c div 2) row)
       (drop (r div 2) x @ take (r div 2) x)"
proof -
  have lx: "length x = r" using assms(1) by (simp add: is_array2_def)
  have outer: "np_roll (- int (r div 2)) x = drop (r div 2) x @ take (r div 2) x"
    using np_roll_backward[of x] lx by simp
  have ya: "is_array2 r c (drop (r div 2) x @ take (r div 2) x)"
    by (rule is_array2_swap_rows[OF assms(1)])
  have "map (np_roll (- int (c div 2))) (drop (r div 2) x @ take (r div 2) x) =
        map (\<lambda>row. drop (c div 2) row @ take (c div 2) row)
          (drop (r div 2) x @ take (r div 2) x)"
  proof (rule map_cong[OF refl])
    fix row assume "row \<in> set (drop (r div 2) x @ take (r div 2) x)"
    then have "length row = c" by (rule is_array2_row[OF ya])
    then show "np_roll (- int (c div 2)) row = drop (c div 2) row @ take (c div 2) row"
      using np_roll_backward[of row] by simp
  qed
  then show ?thesis
    by (simp add: np_ifftshift_def is_array2_shape0[OF assms(1)] is_array2_shape1[OF assms(1)] outer)
qed

text \<open>
  C3. On an array with both axis lengths odd, the centring step of the Spectral Masker
  (\<^verbatim>\<open>np.fft.fftshift\<close>) swaps, per axis, the two parts split at \<open>floor(length/2) + 1\<close>, and
  its un-centring step (\<^verbatim>\<open>np.fft.ifftshift\<close>) swaps the parts split at \<open>floor(length/2)\<close>;
  they are the results of \<^verbatim>\<open>fftshift2d\<close> with \<open>ifft = False\<close> and \<open>ifft = True\<close>.
\<close>

theorem library_shift_is_fftshift2d:
  assumes "is_array2 r c x" and "odd r" and "odd c"
  shows "np_fftshift x = spec_center x \<and> np_ifftshift x = spec_uncenter x
       \<and> fftshift2d x False = Inr (np_fftshift x)
       \<and> fftshift2d x True = Inr (np_ifftshift x)"
proof -
  have s0: "shape0 x = r" and s1: "shape1 x = c"
    using assms(1) by (rule is_array2_shape0, rule is_array2_shape1)
  have a: "np_fftshift x = spec_center x"
    unfolding np_fftshift_odd[OF assms] spec_center_def s0 s1
    by (simp add: spec_swap_halves_def[abs_def])
  have b: "np_ifftshift x = spec_uncenter x"
    unfolding np_ifftshift_split[OF assms(1)] spec_uncenter_def s0 s1
    by (simp add: spec_swap_halves_def[abs_def])
  have c: "fftshift2d x False = Inr (np_fftshift x)"
    unfolding np_fftshift_odd[OF assms] fftshift2d_odd[OF assms] by simp
  have d: "fftshift2d x True = Inr (np_ifftshift x)"
    unfolding np_ifftshift_split[OF assms(1)] fftshift2d_odd[OF assms] by simp
  from a b c d show ?thesis by blast
qed

theorem library_shift_is_fftshift2d_witness:
  "np_fftshift [[1, 2, 3 :: int]] = spec_center [[1, 2, 3]]
   \<and> np_ifftshift [[1, 2, 3 :: int]] = spec_uncenter [[1, 2, 3]]
   \<and> fftshift2d [[1, 2, 3 :: int]] False = Inr (np_fftshift [[1, 2, 3]])
   \<and> fftshift2d [[1, 2, 3 :: int]] True = Inr (np_ifftshift [[1, 2, 3]])"
  by (rule library_shift_is_fftshift2d [of 1 3]) (simp_all add: is_array2_def)


section \<open>The Range Clamper\<close>

text \<open>
  C5. The Range Clamper computes \<open>clip(value, 0, 1) * 255\<close> on every element; 1.5 is sent to
  255 and -0.2 to 0. It is a function of the canvas alone.
\<close>

theorem clamp_and_scale_clip:
  "clamp_and_scale canvas = map (map (\<lambda>v. spec_clip v 0 1 * 255)) canvas
   \<and> clamp_and_scale [[3 / 2]] = [[255]]
   \<and> clamp_and_scale [[- (1 / 5)]] = [[0]]"
proof -
  have "max (min v 1) 0 = spec_clip v 0 1" for v :: real
    by (simp add: spec_clip_def min_def max_def)
  then have "clamp_and_scale canvas = map (map (\<lambda>v. spec_clip v 0 1 * 255)) canvas"
    by (simp add: clamp_and_scale_def Let_def comp_def)
  moreover have "clamp_and_scale [[3 / 2]] = [[255]]"
    by (simp add: clamp_and_scale_def)
  moreover have "clamp_and_scale [[- (1 / 5)]] = [[0]]"
    by (simp add: clamp_and_scale_def)
  ultimately show ?thesis by blast
qed


section \<open>The Canvas Compositor\<close>

lemma hborder_fits:
  assumes "n \<le> OUT_RESOLUTION"
  shows "hborder n = int ((OUT_RESOLUTION - n) div 2)"
  using assms by (simp add: hborder_def zdiv_int of_nat_diff)

lemma py_slice_centered:
  assumes "n \<le> OUT_RESOLUTION"
  shows "py_slice OUT_RESOLUTION (hborder n) (hborder n + int n) =
           ((OUT_RESOLUTION - n) div 2, (OUT_RESOLUTION - n) div 2 + n)"
proof -
  define b where "b = (OUT_RESOLUTION - n) div 2"
  have "b + n \<le> OUT_RESOLUTION" using assms unfolding b_def by arith
  then show ?thesis
    unfolding hborder_fits[OF assms] b_def[symmetric]
    by (simp add: py_slice_def Let_def min_def)
qed

lemma composite_cells:
  assumes "is_array2 n0 n1 slice" and "n0 \<le> OUT_RESOLUTION" and "n1 \<le> OUT_RESOLUTION"
  shows "hborder n0 = int ((OUT_RESOLUTION - n0) div 2)
       \<and> hborder n1 = int ((OUT_RESOLUTION - n1) div 2)
       \<and> hborder 101 = 77
       \<and> (\<exists>canvas. composite n0 n1 slice = Inr canvas
            \<and> is_array2 OUT_RESOLUTION OUT_RESOLUTION canvas
            \<and> (\<forall>i<OUT_RESOLUTION. \<forall>j<OUT_RESOLUTION.
                 canvas ! i ! j =
                   (if (OUT_RESOLUTION - n0) div 2 \<le> i \<and> i < (OUT_RESOLUTION - n0) div 2 + n0
                     \<and> (OUT_RESOLUTION - n1) div 2 \<le> j \<and> j < (OUT_RESOLUTION - n1) div 2 + n1
                    then slice ! (i - (OUT_RESOLUTION - n0) div 2) ! (j - (OUT_RESOLUTION - n1) div 2)
                    else 0)))"
proof -
  define N where "N = OUT_RESOLUTION"
  define b0 where "b0 = (N - n0) div 2"
  define b1 where "b1 = (N - n1) div 2"
  define zeros :: "'a array2" where "zeros = replicate N (replicate N 0)"
  define canvas where "canvas =
     map (\<lambda>i. map (\<lambda>j.
            if b0 \<le> i \<and> i < b0 + n0 \<and> b1 \<le> j \<and> j < b1 + n1
            then slice ! (if n0 = 1 then 0 else i - b0) ! (if n1 = 1 then 0 else j - b1)
            else zeros ! i ! j) [0..<N]) [0..<N]"
  have Npos: "0 < N" by (simp add: N_def OUT_RESOLUTION_def)
  have zs: "shape0 zeros = N" "shape1 zeros = N"
    using Npos by (cases N; simp add: zeros_def shape0_def shape1_def)+
  have ss: "shape0 slice = n0" "shape1 slice = n1"
    using assms(1) by (rule is_array2_shape0, rule is_array2_shape1)
  have comp: "composite n0 n1 slice = Inr canvas"
    unfolding composite_def Let_def py_slice_centered[OF assms(2)] py_slice_centered[OF assms(3)]
    by (simp add: set_region_def ss N_def[symmetric] b0_def[symmetric] b1_def[symmetric]
        zeros_def[symmetric] zs canvas_def)
  have arr: "is_array2 N N canvas"
    using Npos by (simp add: is_array2_def canvas_def list_all_iff)
  have cells: "canvas ! i ! j =
      (if b0 \<le> i \<and> i < b0 + n0 \<and> b1 \<le> j \<and> j < b1 + n1
       then slice ! (i - b0) ! (j - b1) else 0)" if "i < N" "j < N" for i j
  proof -
    have "(if n0 = 1 then 0 else i - b0) = i - b0" if "b0 \<le> i" "i < b0 + n0"
      using that by auto
    moreover have "(if n1 = 1 then 0 else j - b1) = j - b1" if "b1 \<le> j" "j < b1 + n1"
      using that by auto
    ultimately show ?thesis
      using \<open>i < N\<close> \<open>j < N\<close> by (simp add: canvas_def zeros_def)
  qed
  have "hborder 101 = 77"
    by (simp add: hborder_def OUT_RESOLUTION_def)
  then show ?thesis
    using hborder_fits[OF assms(2)] hborder_fits[OF assms(3)] comp arr cells
    unfolding N_def b0_def b1_def by blast
qed

text \<open>
  C4. For a slice whose dimensions are at most the output resolution, the border is
  \<open>(OUT_RESOLUTION - dim) div 2\<close> per axis (77 for a dimension of 101), the canvas is
  \<open>OUT_RESOLUTION\<close> by \<open>OUT_RESOLUTION\<close>, it holds the slice in the rows and columns from
  the border up to border plus dimension, and it is zero everywhere else.
\<close>

theorem composite_centered:
  assumes "is_array2 n0 n1 slice" and "n0 \<le> OUT_RESOLUTION" and "n1 \<le> OUT_RESOLUTION"
  shows "hborder n0 = int ((OUT_RESOLUTION - n0) div 2)
       \<and> hborder n1 = int ((OUT_RESOLUTION - n1) div 2)
       \<and> hborder 101 = 77
       \<and> (\<exists>canvas. composite n0 n1 slice = Inr canvas
            \<and> is_array2 OUT_RESOLUTION OUT_RESOLUTION canvas
            \<and> (\<forall>i<OUT_RESOLUTION. \<forall>j<OUT_RESOLUTION.
                 canvas ! i ! j =
                   (if (OUT_RESOLUTION - n0) div 2 \<le> i \<and> i < (OUT_RESOLUTION - n0) div 2 + n0
                     \<and> (OUT_RESOLUTION - n1) div 2 \<le> j \<and> j < (OUT_RESOLUTION - n1) div 2 + n1
                    then slice ! (i - (OUT_RESOLUTION - n0) div 2) ! (j - (OUT_RESOLUTION - n1) div 2)
                    else 0)))"
  by (rule composite_cells [OF assms])

theorem composite_centered_witness:
  "hborder 1 = int ((OUT_RESOLUTION - 1) div 2)
       \<and> hborder 1 = int ((OUT_RESOLUTION - 1) div 2)
       \<and> hborder 101 = 77
       \<and> (\<exists>canvas. composite 1 1 [[1 / 2 :: real]] = Inr canvas
            \<and> is_array2 OUT_RESOLUTION OUT_RESOLUTION canvas
            \<and> (\<forall>i<OUT_RESOLUTION. \<forall>j<OUT_RESOLUTION.
                 canvas ! i ! j =
                   (if (OUT_RESOLUTION - 1) div 2 \<le> i \<and> i < (OUT_RESOLUTION - 1) div 2 + 1
                     \<and> (OUT_RESOLUTION - 1) div 2 \<le> j \<and> j < (OUT_RESOLUTION - 1) div 2 + 1
                    then [[1 / 2]] ! (i - (OUT_RESOLUTION - 1) div 2) ! (j - (OUT_RESOLUTION - 1) div 2)
                    else 0)))"
  by (rule composite_centered [of 1 1 "[[1 / 2 :: real]]"])
     (simp_all add: is_array2_def OUT_RESOLUTION_def)


section \<open>The inverse transform undoes the transform\<close>

lemma length_np_fft [simp]: "length (np_fft a) = length a"
  by (simp add: np_fft_def Let_def)

lemma length_np_ifft [simp]: "length (np_ifft a) = length a"
  by (simp add: np_ifft_def Let_def)

lemma nth_np_fft:
  "k < length a \<Longrightarrow>
     np_fft a ! k = (\<Sum>m<length a. a ! m * cis (- (2 * pi * real m * real k / real (length a))))"
  by (simp add: np_fft_def Let_def)

lemma nth_np_ifft:
  "m < length a \<Longrightarrow>
     np_ifft a ! m = (\<Sum>k<length a. a ! k * cis (2 * pi * real m * real k / real (length a))) / of_nat (length a)"
  by (simp add: np_ifft_def Let_def)

lemma cis_eq_one_imp:
  assumes "cis t = 1"
  shows "\<exists>i::int. t = of_int i * (2 * pi)"
proof -
  have "cos t = 1" using assms by (simp add: complex_eq_iff)
  then obtain i :: int where "t = of_int i * 2 * pi"
    using cos_one_2pi_int by blast
  then show ?thesis by (intro exI[of _ i]) simp
qed

lemma unit_root_sum:
  assumes "k < n" and "m < n"
  shows "(\<Sum>j<n. cis (2 * pi * real j * (real k - real m) / real n))
           = (if k = m then of_nat n else 0)"
proof (cases "k = m")
  case True
  then show ?thesis by simp
next
  case False
  define t where "t = 2 * pi * (real k - real m) / real n"
  define z where "z = cis t"
  have n0: "0 < n" using assms by simp
  have pw: "cis (2 * pi * real j * (real k - real m) / real n) = z ^ j" for j
    unfolding z_def DeMoivre t_def by (simp add: mult_ac)
  have "z ^ n = cis (2 * pi * (real k - real m))"
    unfolding z_def DeMoivre t_def using n0 by simp
  also have "\<dots> = cis (2 * pi * of_int (int k - int m))"
    by simp
  also have "\<dots> = 1"
    by (rule cis_multiple_2pi) simp
  finally have zn: "z ^ n = 1" .
  have z1: "z \<noteq> 1"
  proof
    assume "z = 1"
    then obtain i :: int where i: "t = of_int i * (2 * pi)"
      unfolding z_def using cis_eq_one_imp by blast
    then have "2 * pi * (real k - real m) = 2 * pi * (of_int i * real n)"
      unfolding t_def using n0 by (simp add: field_simps)
    then have "real k - real m = of_int i * real n"
      by simp
    then have "real_of_int (int k - int m) = real_of_int (i * int n)"
      by simp
    then have eq: "int k - int m = i * int n"
      by (simp only: of_int_eq_iff)
    have "\<bar>int k - int m\<bar> < int n" using assms by linarith
    then have "\<bar>i\<bar> * int n < 1 * int n"
      unfolding eq by (simp add: abs_mult)
    then have "\<bar>i\<bar> < 1" using n0 by simp
    then have "i = 0" by simp
    with eq False show False by simp
  qed
  have "(\<Sum>j<n. z ^ j) = (z ^ n - 1) / (z - 1)"
    using z1 by (rule geometric_sum)
  then have "(\<Sum>j<n. z ^ j) = 0" by (simp add: zn)
  then show ?thesis using False by (simp add: pw)
qed

lemma np_ifft_np_fft: "np_ifft (np_fft a) = a"
proof (rule nth_equalityI)
  show "length (np_ifft (np_fft a)) = length a" by simp
next
  fix k assume "k < length (np_ifft (np_fft a))"
  then have k: "k < length a" by simp
  define n where "n = length a"
  have n0: "0 < n" using k by (auto simp: n_def)
  have "(\<Sum>j<n. np_fft a ! j * cis (2 * pi * real k * real j / real n))
      = (\<Sum>j<n. \<Sum>m<n. a ! m * cis (2 * pi * real j * (real k - real m) / real n))"
  proof (rule sum.cong[OF refl])
    fix j assume "j \<in> {..<n}"
    then have j: "j < length a" by (simp add: n_def)
    have "cis (- (2 * pi * real m * real j / real n)) * cis (2 * pi * real k * real j / real n)
        = cis (2 * pi * real j * (real k - real m) / real n)" for m
      unfolding cis_mult
      by (rule arg_cong[of _ _ cis]) (simp add: right_diff_distrib diff_divide_distrib mult_ac)
    then have tw: "a ! m * cis (- (2 * pi * real m * real j / real n)) * cis (2 * pi * real k * real j / real n)
        = a ! m * cis (2 * pi * real j * (real k - real m) / real n)" for m
      by (simp only: mult.assoc)
    show "np_fft a ! j * cis (2 * pi * real k * real j / real n)
        = (\<Sum>m<n. a ! m * cis (2 * pi * real j * (real k - real m) / real n))"
      unfolding nth_np_fft[OF j] n_def[symmetric] sum_distrib_right
      by (rule sum.cong[OF refl]) (rule tw)
  qed
  also have "\<dots> = (\<Sum>m<n. a ! m * (\<Sum>j<n. cis (2 * pi * real j * (real k - real m) / real n)))"
    unfolding sum_distrib_left by (rule sum.swap)
  also have "\<dots> = (\<Sum>m<n. if m = k then a ! k * of_nat n else 0)"
    using k by (intro sum.cong refl) (auto simp: unit_root_sum n_def)
  also have "\<dots> = a ! k * of_nat n"
    using k by (simp add: n_def)
  finally show "np_ifft (np_fft a) ! k = a ! k"
    using n0 k by (simp add: nth_np_ifft n_def[symmetric])
qed


section \<open>Rectangular arrays: rows, columns and transforms along an axis\<close>

lemma is_array2_nth_length:
  "is_array2 r c x \<Longrightarrow> i < r \<Longrightarrow> length (x ! i) = c"
  by (simp add: is_array2_def list_all_length)

lemma is_array2_I:
  assumes "0 < r" "0 < c" "length x = r" "\<And>i. i < r \<Longrightarrow> length (x ! i) = c"
  shows "is_array2 r c x"
  using assms by (simp add: is_array2_def list_all_length)

lemma array2_eqI:
  assumes x: "is_array2 r c x" and y: "is_array2 r c y"
    and cells: "\<And>i j. i < r \<Longrightarrow> j < c \<Longrightarrow> x ! i ! j = y ! i ! j"
  shows "x = y"
proof (rule nth_equalityI)
  show "length x = length y"
    using x y by (simp add: is_array2_def)
next
  fix i assume "i < length x"
  then have i: "i < r" using x by (simp add: is_array2_def)
  show "x ! i = y ! i"
  proof (rule nth_equalityI)
    show "length (x ! i) = length (y ! i)"
      using is_array2_nth_length[OF x i] is_array2_nth_length[OF y i] by simp
  next
    fix j assume "j < length (x ! i)"
    then have "j < c" using is_array2_nth_length[OF x i] by simp
    then show "x ! i ! j = y ! i ! j" using cells i by simp
  qed
qed

lemma is_array2_map:
  assumes "is_array2 r c x" and "\<And>a. length (f a) = length a"
  shows "is_array2 r c (map f x)"
  using assms by (simp add: is_array2_def list_all_iff)

lemma is_array2_map_map:
  assumes "is_array2 r c x"
  shows "is_array2 r c (map (map f) x)"
  using assms by (simp add: is_array2_def list_all_iff)

lemma columns_array:
  assumes "is_array2 r c x"
  shows "is_array2 c r (columns x)"
  using assms is_array2_shape1[OF assms]
  by (simp add: is_array2_def columns_def list_all_iff)

lemma columns_nth:
  assumes "is_array2 r c x" and "j < c"
  shows "columns x ! j = map (\<lambda>row. row ! j) x"
  using assms is_array2_shape1[OF assms(1)] by (simp add: columns_def)

lemma columns_nth_nth:
  assumes "is_array2 r c x" and "i < r" and "j < c"
  shows "columns x ! j ! i = x ! i ! j"
  using columns_nth[OF assms(1,3)] assms(1,2) by (simp add: is_array2_def)

lemma columns_columns:
  assumes "is_array2 r c x"
  shows "columns (columns x) = x"
proof (rule array2_eqI[OF _ assms])
  show "is_array2 r c (columns (columns x))"
    by (intro columns_array assms)
next
  fix i j assume "i < r" "j < c"
  then show "columns (columns x) ! i ! j = x ! i ! j"
    using columns_nth_nth[OF columns_array[OF assms], of j i]
      columns_nth_nth[OF assms, of i j] by simp
qed

lemma along_axis0_array:
  assumes "is_array2 r c x" and "\<And>a. length (f a) = length a"
  shows "is_array2 r c (along_axis0 f x)"
  unfolding along_axis0_def
  by (intro columns_array is_array2_map assms)

lemma along_axis0_nth_nth:
  assumes x: "is_array2 r c x" and len: "\<And>a. length (f a) = length a"
    and "i < r" and "j < c"
  shows "along_axis0 f x ! i ! j = f (columns x ! j) ! i"
proof -
  have w: "is_array2 c r (map f (columns x))"
    by (intro is_array2_map columns_array x len)
  have "along_axis0 f x ! i ! j = map f (columns x) ! j ! i"
    unfolding along_axis0_def using columns_nth_nth[OF w \<open>j < c\<close> \<open>i < r\<close>] .
  also have "\<dots> = f (columns x ! j) ! i"
    using columns_array[OF x] \<open>j < c\<close> by (simp add: is_array2_def)
  finally show ?thesis .
qed

lemma along_axis0_compose:
  assumes x: "is_array2 r c x" and lf: "\<And>a. length (f a) = length a"
  shows "along_axis0 g (along_axis0 f x) = columns (map (\<lambda>a. g (f a)) (columns x))"
proof -
  have "is_array2 c r (map f (columns x))"
    by (intro is_array2_map columns_array x lf)
  then show ?thesis
    by (simp add: along_axis0_def columns_columns comp_def)
qed

text \<open>
  Two transforms given by summation kernels, one along each axis, can be applied in either
  order.
\<close>

lemma axes_commute:
  fixes f g :: "complex list \<Rightarrow> complex list"
  assumes x: "is_array2 r c x"
    and lf: "\<And>a. length (f a) = length a"
    and lg: "\<And>a. length (g a) = length a"
    and kf: "\<And>a k. k < length a \<Longrightarrow> f a ! k = (\<Sum>m<length a. a ! m * F (length a) m k)"
    and kg: "\<And>a k. k < length a \<Longrightarrow> g a ! k = (\<Sum>m<length a. a ! m * G (length a) m k)"
  shows "along_axis1 g (along_axis0 f x) = along_axis0 f (along_axis1 g x)"
proof (rule array2_eqI[of r c])
  show "is_array2 r c (along_axis1 g (along_axis0 f x))"
    unfolding along_axis1_def by (intro is_array2_map along_axis0_array x lf lg)
  show "is_array2 r c (along_axis0 f (along_axis1 g x))"
    unfolding along_axis1_def by (intro is_array2_map along_axis0_array x lf lg)
next
  fix i j assume i: "i < r" and j: "j < c"
  have lx: "length x = r" using x by (simp add: is_array2_def)
  have gx: "is_array2 r c (map g x)"
    by (intro is_array2_map x lg)
  have a0: "is_array2 r c (along_axis0 f x)"
    by (intro along_axis0_array x lf)
  have row_len: "length (along_axis0 f x ! i) = c"
    using is_array2_nth_length[OF a0 i] .
  have lhs: "along_axis1 g (along_axis0 f x) ! i ! j
      = (\<Sum>l<c. (\<Sum>m<r. x ! m ! l * F r m i) * G c l j)"
  proof -
    have "along_axis1 g (along_axis0 f x) ! i ! j = g (along_axis0 f x ! i) ! j"
      using a0 i by (simp add: along_axis1_def is_array2_def)
    also have "\<dots> = (\<Sum>l<c. along_axis0 f x ! i ! l * G c l j)"
      using kg[of j "along_axis0 f x ! i"] j row_len by simp
    also have "\<dots> = (\<Sum>l<c. (\<Sum>m<r. x ! m ! l * F r m i) * G c l j)"
    proof (rule sum.cong[OF refl])
      fix l assume "l \<in> {..<c}"
      then have l: "l < c" by simp
      have cl: "length (columns x ! l) = r"
        using columns_nth[OF x l] lx by simp
      have "along_axis0 f x ! i ! l = f (columns x ! l) ! i"
        by (rule along_axis0_nth_nth[OF x lf i l])
      also have "\<dots> = (\<Sum>m<r. columns x ! l ! m * F r m i)"
        using kf[of i "columns x ! l"] i cl by simp
      also have "\<dots> = (\<Sum>m<r. x ! m ! l * F r m i)"
        using columns_nth_nth[OF x _ l] by (intro sum.cong refl) simp
      finally show "along_axis0 f x ! i ! l * G c l j = (\<Sum>m<r. x ! m ! l * F r m i) * G c l j"
        by simp
    qed
    finally show ?thesis .
  qed
  have rhs: "along_axis0 f (along_axis1 g x) ! i ! j
      = (\<Sum>m<r. (\<Sum>l<c. x ! m ! l * G c l j) * F r m i)"
  proof -
    have cl: "length (columns (map g x) ! j) = r"
      using columns_nth[OF gx j] lx by simp
    have "along_axis0 f (along_axis1 g x) ! i ! j = f (columns (map g x) ! j) ! i"
      unfolding along_axis1_def by (rule along_axis0_nth_nth[OF gx lf i j])
    also have "\<dots> = (\<Sum>m<r. columns (map g x) ! j ! m * F r m i)"
      using kf[of i "columns (map g x) ! j"] i cl by simp
    also have "\<dots> = (\<Sum>m<r. (\<Sum>l<c. x ! m ! l * G c l j) * F r m i)"
    proof (rule sum.cong[OF refl])
      fix m assume "m \<in> {..<r}"
      then have m: "m < r" by simp
      have "columns (map g x) ! j ! m = g (x ! m) ! j"
        using columns_nth_nth[OF gx m j] m lx by simp
      also have "\<dots> = (\<Sum>l<c. x ! m ! l * G c l j)"
        using kg[of j "x ! m"] j is_array2_nth_length[OF x m] by simp
      finally show "columns (map g x) ! j ! m * F r m i = (\<Sum>l<c. x ! m ! l * G c l j) * F r m i"
        by simp
    qed
    finally show ?thesis .
  qed
  have "(\<Sum>l<c. (\<Sum>m<r. x ! m ! l * F r m i) * G c l j)
      = (\<Sum>l<c. \<Sum>m<r. x ! m ! l * G c l j * F r m i)"
    unfolding sum_distrib_right
    by (intro sum.cong refl) (simp add: mult_ac)
  also have "\<dots> = (\<Sum>m<r. \<Sum>l<c. x ! m ! l * G c l j * F r m i)"
    by (rule sum.swap)
  also have "\<dots> = (\<Sum>m<r. (\<Sum>l<c. x ! m ! l * G c l j) * F r m i)"
    by (simp add: sum_distrib_right)
  finally show "along_axis1 g (along_axis0 f x) ! i ! j = along_axis0 f (along_axis1 g x) ! i ! j"
    unfolding lhs rhs .
qed

lemma np_ifft_kernel:
  "k < length a \<Longrightarrow>
     np_ifft a ! k =
       (\<Sum>m<length a. a ! m * (cis (2 * pi * real k * real m / real (length a)) / of_nat (length a)))"
  by (simp add: nth_np_ifft sum_divide_distrib)

lemma np_ifft2_np_fft2:
  assumes "is_array2 r c x"
  shows "np_ifft2 (np_fft2 x) = x"
proof -
  have y: "is_array2 r c (along_axis1 np_fft x)"
    unfolding along_axis1_def by (intro is_array2_map assms) simp
  have swap: "along_axis1 np_ifft (along_axis0 np_fft (along_axis1 np_fft x))
      = along_axis0 np_fft (along_axis1 np_ifft (along_axis1 np_fft x))"
    by (rule axes_commute[OF y, where F = "\<lambda>n m k. cis (- (2 * pi * real m * real k / real n))"
          and G = "\<lambda>n m k. cis (2 * pi * real k * real m / real n) / of_nat n"])
       (simp_all add: nth_np_fft np_ifft_kernel)
  have rows: "along_axis1 np_ifft (along_axis1 np_fft x) = x"
    by (simp add: along_axis1_def np_ifft_np_fft comp_def)
  have "np_ifft2 (np_fft2 x) = along_axis0 np_ifft (along_axis0 np_fft x)"
    unfolding np_ifft2_def np_fft2_def swap rows ..
  also have "\<dots> = columns (map (\<lambda>a. np_ifft (np_fft a)) (columns x))"
    by (rule along_axis0_compose[OF assms]) simp
  also have "\<dots> = x"
    by (simp add: np_ifft_np_fft columns_columns[OF assms])
  finally show ?thesis .
qed


section \<open>Rolls and shifts of rectangular arrays\<close>

lemma np_roll_split: "\<exists>j. np_roll s xs = drop j xs @ take j xs"
proof (cases "length xs = 0")
  case True
  then show ?thesis by (intro exI[of _ 0]) (simp add: np_roll_def)
next
  case False
  then show ?thesis
    by (intro exI[of _ "length xs - nat (s mod int (length xs))"]) (simp add: np_roll_def Let_def)
qed

lemma np_roll_map: "np_roll s (map f xs) = map f (np_roll s xs)"
  by (simp add: np_roll_def Let_def drop_map take_map)

lemma np_roll_half:
  "np_roll (int (length xs div 2)) xs =
     drop (length xs - length xs div 2) xs @ take (length xs - length xs div 2) xs"
proof (cases "length xs = 0")
  case True
  then show ?thesis by (simp add: np_roll_def)
next
  case False
  then have "int (length xs div 2) mod int (length xs) = int (length xs div 2)"
    by (intro mod_pos_pos_trivial) auto
  then show ?thesis using False by (simp add: np_roll_def Let_def)
qed

lemma np_roll_there_and_back:
  assumes "length ys = length xs" and "ys = np_roll (int (length xs div 2)) xs"
  shows "np_roll (- int (length ys div 2)) ys = xs"
proof -
  define n where "n = length xs"
  define h where "h = n div 2"
  have hn: "h \<le> n" by (simp add: h_def)
  have ys: "ys = drop (n - h) xs @ take (n - h) xs"
    using assms(2) np_roll_half[of xs] by (simp add: n_def h_def)
  have "np_roll (- int (length ys div 2)) ys = drop h ys @ take h ys"
    using np_roll_backward[of ys] assms(1) by (simp add: n_def h_def)
  also have "\<dots> = xs"
    unfolding ys using hn by (simp add: n_def)
  finally show ?thesis .
qed

lemma length_np_roll [simp]: "length (np_roll s xs) = length xs"
  by (simp add: np_roll_def Let_def)

lemma is_array2_np_roll_rows:
  "is_array2 r c x \<Longrightarrow> is_array2 r c (np_roll s x)"
  using np_roll_split[of s x] is_array2_swap_rows[of r c x] by auto

lemma is_array2_np_roll_cols:
  "is_array2 r c x \<Longrightarrow> is_array2 r c (map (np_roll s) x)"
  by (rule is_array2_map) simp_all

lemma np_fftshift_array:
  assumes "is_array2 r c x"
  shows "is_array2 r c (np_fftshift x)"
  unfolding np_fftshift_def
  by (intro is_array2_np_roll_cols is_array2_np_roll_rows assms)

lemma np_ifftshift_array:
  assumes "is_array2 r c x"
  shows "is_array2 r c (np_ifftshift x)"
  unfolding np_ifftshift_def
  by (intro is_array2_np_roll_cols is_array2_np_roll_rows assms)

lemma np_ifftshift_np_fftshift:
  assumes "is_array2 r c x"
  shows "np_ifftshift (np_fftshift x) = x"
proof -
  have sx: "shape0 x = r" "shape1 x = c"
    using assms by (rule is_array2_shape0, rule is_array2_shape1)
  have sy: "shape0 (np_fftshift x) = r" "shape1 (np_fftshift x) = c"
    using np_fftshift_array[OF assms] by (rule is_array2_shape0, rule is_array2_shape1)
  have lx: "length x = r" using assms by (simp add: is_array2_def)
  have "np_ifftshift (np_fftshift x)
      = map (np_roll (- int (c div 2)))
          (np_roll (- int (r div 2)) (map (np_roll (int (c div 2))) (np_roll (int (r div 2)) x)))"
    by (simp add: np_ifftshift_def sy) (simp add: np_fftshift_def sx)
  also have "\<dots> = map (\<lambda>row. np_roll (- int (c div 2)) (np_roll (int (c div 2)) row))
          (np_roll (- int (r div 2)) (np_roll (int (r div 2)) x))"
    by (simp add: np_roll_map comp_def)
  also have "np_roll (- int (r div 2)) (np_roll (int (r div 2)) x) = x"
    using np_roll_there_and_back[of "np_roll (int (length x div 2)) x" x] lx by simp
  also have "map (\<lambda>row. np_roll (- int (c div 2)) (np_roll (int (c div 2)) row)) x = map (\<lambda>row. row) x"
  proof (rule map_cong[OF refl])
    fix row assume "row \<in> set x"
    then have "length row = c" by (rule is_array2_row[OF assms])
    then show "np_roll (- int (c div 2)) (np_roll (int (c div 2)) row) = row"
      using np_roll_there_and_back[of "np_roll (int (length row div 2)) row" row] by simp
  qed
  finally show ?thesis by simp
qed


section \<open>The retention mask\<close>

lemma cell_index_bound:
  assumes "i < r" and "j < (c::nat)"
  shows "i * c + j < r * c"
proof -
  have "i * c + j < i * c + c" using assms(2) by simp
  also have "\<dots> = Suc i * c" by simp
  also have "\<dots> \<le> r * c" using assms(1) by (intro mult_le_mono1) simp
  finally show ?thesis .
qed

lemma masked_cells:
  fixes f :: real and g :: rng
  assumes S: "is_array2 r c S"
  defines "M \<equiv> map2 (map2 (\<lambda>z b. z * of_bool b)) S
                  (map (map (\<lambda>v. v < f)) (fst (random_rand r c g)))"
  shows "is_array2 r c M"
    and "\<And>i j. i < r \<Longrightarrow> j < c \<Longrightarrow> M ! i ! j = (S ! i ! j * of_bool (g (i * c + j) < f) :: complex)"
proof -
  have lS: "length S = r" and pos: "0 < r" "0 < c"
    using S by (simp_all add: is_array2_def)
  have lM: "length M = r"
    by (simp add: M_def random_rand_def lS)
  have row: "M ! i = map2 (\<lambda>z b. z * of_bool b) (S ! i) (map (\<lambda>j. g (i * c + j) < f) [0..<c])"
    if "i < r" for i
    using that lS by (simp add: M_def random_rand_def comp_def)
  have lrow: "length (M ! i) = c" if "i < r" for i
    using is_array2_nth_length[OF S that] by (simp add: row[OF that])
  show "is_array2 r c M"
    by (rule is_array2_I[OF pos lM lrow])
  show "M ! i ! j = S ! i ! j * of_bool (g (i * c + j) < f)" if "i < r" "j < c" for i j
    using is_array2_nth_length[OF S that(1)] that by (simp add: row)
qed

lemma undersample_kspace_unfold:
  assumes "is_array2 r c slice"
  shows "undersample_kspace slice f g =
     (Inr (map (map cmod) (np_ifft2 (np_ifftshift
        (map2 (map2 (\<lambda>z b. z * of_bool b))
           (np_fftshift (np_fft2 (map (map complex_of_real) slice)))
           (map (map (\<lambda>v. v < f)) (fst (random_rand r c g))))))),
      advance (r * c) g)"
proof -
  have pos: "0 < r" "0 < c" using assms by (simp_all add: is_array2_def)
  have ss: "shape0 slice = r" "shape1 slice = c"
    using assms by (rule is_array2_shape0, rule is_array2_shape1)
  have "is_array2 r c (np_fftshift (np_fft2 (map (map complex_of_real) slice)))"
    unfolding np_fft2_def along_axis1_def
    by (intro np_fftshift_array along_axis0_array is_array2_map is_array2_map_map assms) simp_all
  then have sh: "shape0 (np_fftshift (np_fft2 (map (map complex_of_real) slice))) = r"
      "shape1 (np_fftshift (np_fft2 (map (map complex_of_real) slice))) = c"
    by (rule is_array2_shape0, rule is_array2_shape1)
  show ?thesis
    using pos by (simp add: undersample_kspace_def ss Let_def sh split_def random_rand_def)
qed


section \<open>What the Spectral Masker returns\<close>

lemma spectrum_array:
  assumes "is_array2 r c slice"
  shows "is_array2 r c (np_fft2 (map (map complex_of_real) slice))"
  unfolding np_fft2_def along_axis1_def
  by (intro along_axis0_array is_array2_map is_array2_map_map assms) simp_all

lemma undersample_kspace_shape:
  assumes "is_array2 r c slice"
  shows "\<exists>out. undersample_kspace slice f g = (Inr out, advance (r * c) g) \<and> is_array2 r c out"
proof -
  have S: "is_array2 r c (np_fftshift (np_fft2 (map (map complex_of_real) slice)))"
    by (intro np_fftshift_array spectrum_array assms)
  have "is_array2 r c (map (map cmod) (np_ifft2 (np_ifftshift
        (map2 (map2 (\<lambda>z b. z * of_bool b))
           (np_fftshift (np_fft2 (map (map complex_of_real) slice)))
           (map (map (\<lambda>v. v < f)) (fst (random_rand r c g)))))))"
    unfolding np_ifft2_def along_axis1_def
    by (intro is_array2_map_map along_axis0_array is_array2_map np_ifftshift_array masked_cells(1)[OF S])
       simp_all
  then show ?thesis
    unfolding undersample_kspace_unfold[OF assms] by blast
qed

lemma undersample_kspace_all_kept:
  assumes a: "is_array2 r c slice" and keep: "\<And>k. k < r * c \<Longrightarrow> g k < f"
  shows "undersample_kspace slice f g = (Inr (map (map abs) slice), advance (r * c) g)"
proof -
  define X where "X = map (map complex_of_real) slice"
  have X: "is_array2 r c X"
    unfolding X_def by (intro is_array2_map_map a)
  have FX: "is_array2 r c (np_fft2 X)"
    unfolding X_def by (rule spectrum_array[OF a])
  have S: "is_array2 r c (np_fftshift (np_fft2 X))"
    by (rule np_fftshift_array[OF FX])
  have "map2 (map2 (\<lambda>z b. z * of_bool b)) (np_fftshift (np_fft2 X))
          (map (map (\<lambda>v. v < f)) (fst (random_rand r c g))) = np_fftshift (np_fft2 X)"
  proof (rule array2_eqI[OF masked_cells(1)[OF S] S])
    fix i j assume "i < r" "j < c"
    then show "map2 (map2 (\<lambda>z b. z * of_bool b)) (np_fftshift (np_fft2 X))
          (map (map (\<lambda>v. v < f)) (fst (random_rand r c g))) ! i ! j = np_fftshift (np_fft2 X) ! i ! j"
      using masked_cells(2)[OF S, of i j f g] keep[OF cell_index_bound[of i r j c]] by simp
  qed
  moreover have "np_ifft2 (np_ifftshift (np_fftshift (np_fft2 X))) = X"
    by (simp add: np_ifftshift_np_fftshift[OF FX] np_ifft2_np_fft2[OF X])
  moreover have "map (map cmod) X = map (map abs) slice"
    by (simp add: X_def comp_def norm_of_real)
  ultimately show ?thesis
    unfolding undersample_kspace_unfold[OF a] X_def[symmetric] by simp
qed

text \<open>
  C7. With a keep fraction of 1.0, the Spectral Masker returns the element-wise magnitude of
  the slice, whatever the generator delivers: every draw is below 1, so every frequency is
  kept. The identity is exact over the reals. It holds for every rectangular slice, in
  particular for the odd-dimensioned ones.
\<close>

theorem undersample_kspace_keep_all:
  assumes "is_array2 r c slice" and "unit_draws g"
  shows "undersample_kspace slice 1 g = (Inr (map (map abs) slice), advance (r * c) g)"
  using assms(2) by (intro undersample_kspace_all_kept assms(1)) (simp add: unit_draws_def)

theorem undersample_kspace_keep_all_witness:
  "undersample_kspace [[1, - 2, 3]] 1 (\<lambda>k. 1 / 2)
     = (Inr (map (map abs) [[1, - 2, 3]]), advance (1 * 3) (\<lambda>k. 1 / 2))"
  by (rule undersample_kspace_keep_all) (simp_all add: is_array2_def unit_draws_def)


section \<open>A mask that keeps nothing\<close>












section \<open>Even dimensions\<close>

text \<open>
  C1, as stated, fails: on the 2 by 2 slice below, with every draw under the default
  fraction, the Spectral Masker returns the magnitudes of the slice and no error.
\<close>

theorem undersample_kspace_even_counterexample:
  "undersample_kspace [[1, 2], [3, 4]] (1 / 2) (\<lambda>k. 0) = (Inr [[1, 2], [3, 4]], advance 4 (\<lambda>k. 0))"
  using undersample_kspace_all_kept [of 2 2 "[[1, 2], [3, 4]]" "\<lambda>k. 0" "1 / 2"]
  by (simp add: is_array2_def)

text \<open>
  C1, amended. \<^verbatim>\<open>undersample_kspace\<close> checks no parity: for every slice with at least one
  row and one column, and so for every such slice with an even axis length, it returns a
  magnitude array of the shape of the slice. Only the hand-rolled \<^verbatim>\<open>fftshift2d\<close>, which
  \<^verbatim>\<open>undersample_kspace\<close> does not call, fails on an even axis length, by its assertion.
\<close>

theorem undersample_kspace_even_returns:
  assumes "is_array2 r c slice" and "even r \<or> even c"
  shows "(\<exists>out. undersample_kspace slice f g = (Inr out, advance (r * c) g) \<and> is_array2 r c out)
       \<and> fftshift2d slice ifft = Inl AssertionError"
  using undersample_kspace_shape[OF assms(1)] fftshift2d_even[OF assms] by simp

theorem undersample_kspace_even_returns_witness:
  "(\<exists>out. undersample_kspace [[1, 2], [3, 4]] (1 / 2) (\<lambda>k. 0) = (Inr out, advance (2 * 2) (\<lambda>k. 0))
        \<and> is_array2 2 2 out)
       \<and> fftshift2d [[1, 2], [3, 4 :: real]] False = Inl AssertionError"
  by (rule undersample_kspace_even_returns) (simp_all add: is_array2_def)


section \<open>Single precision rounding\<close>

lemma round_half_even_of_int [simp]: "round_half_even (of_int n) = n"
  by (simp add: round_half_even_def)

lemma round_half_even_ge_floor: "\<lfloor>y\<rfloor> \<le> round_half_even y"
  by (simp add: round_half_even_def Let_def)

lemma round_half_even_nonneg: "0 \<le> y \<Longrightarrow> 0 \<le> round_half_even y"
  using round_half_even_ge_floor[of y] by (meson order_trans zero_le_floor)

lemma round_half_even_le:
  assumes "y \<le> of_int N"
  shows "round_half_even y \<le> N"
proof (cases "y = of_int N")
  case True
  then show ?thesis by simp
next
  case False
  then have "y < of_int N" using assms by simp
  then have "\<lfloor>y\<rfloor> < N" by (simp add: floor_less_iff)
  then show ?thesis by (simp add: round_half_even_def Let_def)
qed

lemma ulp32_pos: "0 < ulp32 x"
  by (simp add: ulp32_def)

lemma round32_nonneg:
  assumes "0 \<le> x"
  shows "0 \<le> round32 x"
proof (cases "x = 0")
  case True
  then show ?thesis by (simp add: round32_def)
next
  case False
  have "0 \<le> x / ulp32 x" using assms ulp32_pos[of x] by simp
  then have "0 \<le> round_half_even (x / ulp32 x)" by (rule round_half_even_nonneg)
  then show ?thesis using False ulp32_pos[of x] by (simp add: round32_def)
qed

lemma floor_log2_eq:
  assumes "0 < a" and "2 powi e \<le> a" and "a < 2 powi (e + 1)"
  shows "\<lfloor>log 2 a\<rfloor> = e"
proof -
  have a: "(2::real) powr real_of_int e = 2 powi e"
    by (rule powr_real_of_int') simp_all
  have b: "(2::real) powr real_of_int (e + 1) = 2 powi (e + 1)"
    by (rule powr_real_of_int') simp_all
  show ?thesis
    using assms floor_log_eq_powr_iff[of a 2 e] a b
    by (simp only: of_int_add of_int_1)
qed

lemma round32_exact:
  assumes "x \<noteq> 0" and "2 powi e \<le> \<bar>x\<bar>" and "\<bar>x\<bar> < 2 powi (e + 1)"
    and "x = of_int n * 2 powi (max e (- 126) - 23)"
  shows "round32 x = x"
proof -
  have "\<lfloor>log 2 \<bar>x\<bar>\<rfloor> = e"
    using assms(1-3) by (intro floor_log2_eq) simp_all
  then have u: "ulp32 x = 2 powi (max e (- 126) - 23)"
    by (simp add: ulp32_def)
  have "x / ulp32 x = of_int n"
    unfolding u by (subst assms(4)) simp
  then show ?thesis
    using assms(1) by (simp add: round32_def u assms(4)[symmetric])
qed

lemma round32_le_one:
  assumes "0 \<le> x" and "x \<le> 1"
  shows "round32 x \<le> 1"
proof -
  consider "x = 0" | "x = 1" | "0 < x" "x < 1" using assms by linarith
  then show ?thesis
  proof cases
    case 1
    then show ?thesis by (simp add: round32_def)
  next
    case 2
    have "round32 1 = 1"
      by (rule round32_exact[of 1 0 "2 ^ 23"]) (simp_all add: power_int_def power_divide)
    then show ?thesis using 2 by simp
  next
    case 3
    have "log 2 x < 0" using 3 by simp
    then have e: "\<lfloor>log 2 \<bar>x\<bar>\<rfloor> \<le> - 1" using 3 by (simp add: floor_le_iff)
    define k where "k = max \<lfloor>log 2 \<bar>x\<bar>\<rfloor> (- 126) - 23"
    define N :: int where "N = 2 ^ nat (- k)"
    have k: "k < 0" unfolding k_def using e by linarith
    have u: "ulp32 x = 2 powi k" by (simp add: ulp32_def k_def)
    have uN: "ulp32 x * of_int N = 1"
      using k by (simp add: u N_def power_int_def power_divide)
    have "x / ulp32 x = x * of_int N"
      using uN ulp32_pos[of x] by (simp add: field_simps)
    also have "\<dots> \<le> of_int N"
      using 3 by (simp add: N_def mult_left_le_one_le)
    finally have "round_half_even (x / ulp32 x) \<le> N"
      by (rule round_half_even_le)
    then have "of_int (round_half_even (x / ulp32 x)) * ulp32 x \<le> of_int N * ulp32 x"
      using ulp32_pos[of x] by (intro mult_right_mono) simp_all
    then show ?thesis
      using 3 uN by (simp add: round32_def mult.commute)
  qed
qed

lemma round32_1 [simp]: "round32 1 = 1"
  by (rule round32_exact[of 1 0 "2 ^ 23"]) (simp_all add: power_int_def power_divide)

lemma round32_minus_1 [simp]: "round32 (- 1) = - 1"
  by (rule round32_exact[of "- 1" 0 "- (2 ^ 23)"]) (simp_all add: power_int_def power_divide)

lemma round32_2 [simp]: "round32 2 = 2"
  by (rule round32_exact[of 2 1 "2 ^ 23"]) (simp_all add: power_int_def power_divide)

lemma round32_minus_half [simp]: "round32 (- (1 / 2)) = - (1 / 2)"
  by (rule round32_exact[of "- (1 / 2)" "- 1" "- (2 ^ 23)"]) (simp_all add: power_int_def power_divide)

lemma round32_255 [simp]: "round32 255 = 255"
  by (rule round32_exact[of 255 7 "255 * 2 ^ 16"]) (simp_all add: power_int_def power_divide)

lemma round32_big: "round32 (2 ^ 128) = 2 ^ 128"
  by (rule round32_exact[of "2 ^ 128" 128 "2 ^ 23"]) (simp_all add: power_int_def power_divide)

lemma round32_255th: "round32 (1 / 255) = 8421505 / 2 ^ 31"
proof -
  have fl: "\<lfloor>log 2 \<bar>1 / 255 :: real\<bar>\<rfloor> = - 8"
    by (rule floor_log2_eq) (simp_all add: power_int_def power_divide)
  have u: "ulp32 (1 / 255) = 1 / 2 ^ 31"
    unfolding ulp32_def fl by (simp add: power_int_def power_divide)
  have "round_half_even (2 ^ 31 / 255) = 8421505"
    by (simp add: round_half_even_def Let_def)
  then show ?thesis
    by (simp add: round32_def u)
qed

section \<open>The Slice Normalizer\<close>

lemma is_array3_nonempty:
  assumes "is_array3 r c d v"
  shows "concat (concat v) \<noteq> []"
proof -
  obtain p ps where v: "v = p # ps"
    using assms by (cases v) (auto simp: is_array3_def)
  then have p: "is_array2 c d p"
    using assms by (simp add: is_array3_def)
  then obtain l ls where pl: "p = l # ls"
    by (cases p) (auto simp: is_array2_def)
  then have "length l = d" "0 < d"
    using p by (simp_all add: is_array2_def)
  then have "l \<noteq> []" by auto
  then show ?thesis by (simp add: v pl)
qed

lemma is_array3_shapes:
  assumes "is_array3 r c d v"
  shows "shape0 v = r" and "shape1 v = c" and "shape2 v = d"
proof -
  obtain p ps where v: "v = p # ps"
    using assms by (cases v) (auto simp: is_array3_def)
  then have p: "is_array2 c d p"
    using assms by (simp add: is_array3_def)
  show "shape0 v = r" using assms by (simp add: is_array3_def shape0_def)
  show "shape1 v = c" using p by (simp add: v shape1_def is_array2_def)
  show "shape2 v = d" using is_array2_shape1[OF p] by (simp add: v shape2_def)
qed

lemma is_array3_map:
  assumes "is_array3 n0 n1 d v"
  shows "is_array3 n0 n1 d (map (map (map f)) v)"
  using assms by (simp add: is_array3_def is_array2_def list_all_iff)

lemma np_max_nonempty:
  "xs \<noteq> [] \<Longrightarrow> \<exists>m. np_max xs = Inr m"
  by (cases xs) (simp_all add: np_max_def)

lemma normalize_volume_array:
  assumes "is_array3 n0 n1 d v"
  shows "\<exists>img. normalize_volume v = Inr img \<and> is_array3 n0 n1 d img"
proof -
  have "concat (concat (map (map (map astype_float32)) v)) \<noteq> []"
    by (rule is_array3_nonempty[OF is_array3_map[OF assms]])
  then obtain m where "np_max (concat (concat (map (map (map astype_float32)) v))) = Inr m"
    using np_max_nonempty by blast
  then have "normalize_volume v
      = Inr (map (map (map (\<lambda>a. fp_divide32 a m))) (map (map (map astype_float32)) v))"
    by (simp add: normalize_volume_def)
  moreover have "is_array3 n0 n1 d
      (map (map (map (\<lambda>a. fp_divide32 a m))) (map (map (map astype_float32)) v))"
    by (rule is_array3_map[OF is_array3_map[OF assms]])
  ultimately show ?thesis by simp
qed

lemma fp_maximum_Num: "fp_maximum (Num a) (Num b) = Num (max a b)"
  by (simp add: fp_maximum_def fp_le_def fp_rank_def fp_value_def max_def)

lemma foldl_fp_maximum_Num:
  "foldl fp_maximum (Num a) (map Num rs) = Num (Max (set (a # rs)))"
proof (induction rs arbitrary: a)
  case Nil
  show ?case by simp
next
  case (Cons b rs)
  have "Max (set (max a b # rs)) = Max (set (a # b # rs))"
    by (cases "rs = []") (simp_all add: max.assoc)
  moreover have "foldl fp_maximum (Num a) (map Num (b # rs)) = Num (Max (set (max a b # rs)))"
    using Cons.IH[of "max a b"] by (simp add: fp_maximum_Num)
  ultimately show ?case by (simp only:)
qed

lemma np_max_Num:
  assumes "rs \<noteq> []"
  shows "np_max (map Num rs) = Inr (Num (Max (set rs)))"
proof -
  obtain a rest where "rs = a # rest" using assms by (cases rs) auto
  then show ?thesis
    using foldl_fp_maximum_Num[of a rest] by (simp add: np_max_def)
qed

lemma astype_float32_nonneg:
  assumes "0 \<le> x" and "\<bar>round32 x\<bar> \<le> FLT_MAX"
  shows "astype_float32 x = Num (round32 x)"
  using assms by (auto simp: astype_float32_def fp_round32_def Let_def)

lemma fp_divide32_unit:
  assumes "0 \<le> a" and "a \<le> m" and "0 < m"
  shows "fp_divide32 (Num a) (Num m) = Num (round32 (a / m))"
    and "0 \<le> round32 (a / m)" and "round32 (a / m) \<le> 1"
proof -
  have q: "0 \<le> a / m" "a / m \<le> 1" using assms by simp_all
  show lo: "0 \<le> round32 (a / m)" by (rule round32_nonneg[OF q(1)])
  show hi: "round32 (a / m) \<le> 1" by (rule round32_le_one[OF q])
  have "1 \<le> FLT_MAX" by (simp add: FLT_MAX_def)
  then have "\<not> FLT_MAX < \<bar>round32 (a / m)\<bar>" using lo hi by simp
  then show "fp_divide32 (Num a) (Num m) = Num (round32 (a / m))"
    using assms
    by (auto simp: fp_divide32_def fp_infinite_def fp_is_zero_def fp_finite_def fp_value_def
        fp_negative_def fp_round32_def Let_def)
qed

text \<open>
  C6, as stated, fails: a volume with a negative sample is divided by its maximum like any
  other, and the quotient of the negative sample is negative.
\<close>

theorem normalize_volume_range_counterexample:
  "normalize_volume [[[- 1, 2]]] = Inr [[[Num (- (1 / 2)), Num 1]]]
   \<and> \<not> unit_range [[[Num (- (1 / 2)), Num 1]]]"
  by (simp add: normalize_volume_def np_max_def astype_float32_def fp_round32_def FLT_MAX_def
      fp_maximum_def fp_le_def fp_rank_def fp_value_def fp_divide32_def fp_infinite_def
      fp_is_zero_def fp_finite_def fp_negative_def unit_range_def fp_in_unit_def)

text \<open>
  The other conditions of the amended claim are needed as well. A volume without samples
  makes \<^verbatim>\<open>np.max\<close> raise \<^verbatim>\<open>ValueError\<close>. A volume of zeros is divided by zero, and a
  sample beyond the single precision range becomes an infinity in the cast and is divided
  by itself: both quotients are NaN. The last volume shows the rounding of the division.
\<close>

lemma normalize_volume_empty: "normalize_volume [] = Inl ValueError"
  by (simp add: normalize_volume_def np_max_def)

lemma normalize_volume_zero: "normalize_volume [[[0]]] = Inr [[[NaN]]]"
  by (simp add: normalize_volume_def np_max_def astype_float32_def fp_round32_def FLT_MAX_def
      round32_def fp_divide32_def fp_infinite_def fp_is_zero_def fp_finite_def fp_value_def)

lemma normalize_volume_beyond:
  assumes "0 \<le> x" and "FLT_MAX < round32 x"
  shows "normalize_volume [[[x]]] = Inr [[[NaN]]]"
proof -
  have "FLT_MAX < \<bar>round32 x\<bar>" using assms(2) by simp
  then have "astype_float32 x = PosInf"
    using assms(1) by (simp add: astype_float32_def fp_round32_def Let_def)
  then show ?thesis
    by (simp add: normalize_volume_def np_max_def fp_divide32_def fp_infinite_def)
qed

lemma normalize_volume_overflow: "normalize_volume [[[2 ^ 128]]] = Inr [[[NaN]]]"
proof (rule normalize_volume_beyond)
  show "(0::real) \<le> 2 ^ 128" by simp
  show "FLT_MAX < round32 (2 ^ 128)"
    unfolding round32_big by (simp add: FLT_MAX_def)
qed

lemma normalize_volume_rounds:
  "normalize_volume [[[255, 1]]] = Inr [[[Num 1, Num (8421505 / 2 ^ 31)]]]"
  by (simp add: normalize_volume_def np_max_def astype_float32_def fp_round32_def FLT_MAX_def
      fp_maximum_def fp_le_def fp_rank_def fp_value_def fp_divide32_def fp_infinite_def
      fp_is_zero_def fp_finite_def fp_negative_def round32_255th)

text \<open>
  C6, amended. For every volume with at least one sample whose samples are non-negative,
  whose single precision casts are finite and whose single precision maximum is positive,
  the Slice Normalizer divides every cast sample by the maximum of the cast samples, in
  single precision, and all results lie between 0 and 1.
\<close>

theorem normalize_volume_unit_range:
  assumes "is_array3 r c d v" and "nonnegative v" and "float32_range v"
    and "0 < Max (round32 ` set (concat (concat v)))"
  shows "normalize_volume v =
           Inr (map (map (map (\<lambda>x. Num (round32 (round32 x
                  / Max (round32 ` set (concat (concat v)))))))) v)
       \<and> unit_range (map (map (map (\<lambda>x. Num (round32 (round32 x
                  / Max (round32 ` set (concat (concat v)))))))) v)"
proof -
  define M where "M = Max (round32 ` set (concat (concat v)))"
  have ne: "concat (concat v) \<noteq> []" by (rule is_array3_nonempty[OF assms(1)])
  have elem: "0 \<le> x \<and> \<bar>round32 x\<bar> \<le> FLT_MAX \<and> round32 x \<le> M"
    if "p \<in> set v" "l \<in> set p" "x \<in> set l" for p l x
  proof -
    have "x \<in> set (concat (concat v))" using that by auto
    then have "round32 x \<le> M" unfolding M_def by (intro Max_ge) auto
    moreover have "0 \<le> x"
      using assms(2) that by (auto simp: nonnegative_def list_all_iff)
    moreover have "\<bar>round32 x\<bar> \<le> FLT_MAX"
      using assms(3) that by (auto simp: float32_range_def list_all_iff)
    ultimately show ?thesis by simp
  qed
  have cast: "map (map (map astype_float32)) v = map (map (map (\<lambda>x. Num (round32 x)))) v"
    using elem by (intro map_cong refl astype_float32_nonneg) auto
  have flat: "concat (concat (map (map (map (\<lambda>x. Num (round32 x)))) v))
      = map Num (map round32 (concat (concat v)))"
    by (simp add: map_concat comp_def)
  have mx: "np_max (concat (concat (map (map (map astype_float32)) v))) = Inr (Num M)"
    unfolding cast flat using np_max_Num[of "map round32 (concat (concat v))"] ne
    by (simp add: M_def)
  have Mpos: "0 < M" using assms(4) by (simp add: M_def)
  have quot: "map (map (map (\<lambda>a. fp_divide32 a (Num M)))) (map (map (map (\<lambda>x. Num (round32 x)))) v)
      = map (map (map (\<lambda>x. Num (round32 (round32 x / M))))) v"
  proof -
    have "fp_divide32 (Num (round32 x)) (Num M) = Num (round32 (round32 x / M))"
      if "p \<in> set v" "l \<in> set p" "x \<in> set l" for p l x
      using elem[OF that] round32_nonneg[of x] Mpos by (intro fp_divide32_unit(1)) simp_all
    then show ?thesis
      by (simp add: comp_def)
  qed
  have eq: "normalize_volume v = Inr (map (map (map (\<lambda>x. Num (round32 (round32 x / M))))) v)"
    apply (simp only: normalize_volume_def Let_def)
    apply (simp only: mx sum.case)
    apply (simp only: cast quot)
    done
  have "fp_in_unit (Num (round32 (round32 x / M)))"
    if "p \<in> set v" "l \<in> set p" "x \<in> set l" for p l x
    using elem[OF that] round32_nonneg[of x] Mpos
      fp_divide32_unit(2,3)[of "round32 x" M]
    by (simp add: fp_in_unit_def fp_le_def fp_rank_def fp_value_def)
  then have "unit_range (map (map (map (\<lambda>x. Num (round32 (round32 x / M))))) v)"
    by (auto simp: unit_range_def list_all_iff)
  with eq show ?thesis unfolding M_def by simp
qed

theorem normalize_volume_unit_range_witness:
  "normalize_volume [[[1, 2]]] =
           Inr (map (map (map (\<lambda>x. Num (round32 (round32 x
                  / Max (round32 ` set (concat (concat [[[1, 2]]]))))))))  [[[1, 2]]])
       \<and> unit_range (map (map (map (\<lambda>x. Num (round32 (round32 x
                  / Max (round32 ` set (concat (concat [[[1, 2]]]))))))))  [[[1, 2]]])"
  by (rule normalize_volume_unit_range [of 1 1 2])
     (simp_all add: is_array3_def is_array2_def nonnegative_def float32_range_def FLT_MAX_def)

section \<open>Without the undersample flag the random source is not touched\<close>

lemma slice_raster_plain:
  "slice_raster cells False n0 n1 img s g =
     (fst (slice_raster cells False n0 n1 img s g0), g)"
  by (simp add: slice_raster_def split: sum.splits)

lemma genpng_slice_plain:
  "genpng_slice cells False od name n0 n1 img s w =
     (case genpng_slice cells False od name n0 n1 img s (w\<lparr>rand := g0\<rparr>) of
        (e, w') \<Rightarrow> (e, w'\<lparr>rand := rand w\<rparr>))"
  unfolding genpng_slice_def
  by (subst slice_raster_plain[of _ _ _ _ _ "rand w" g0],
      subst slice_raster_plain[of _ _ _ _ _ "rand (w\<lparr>rand := g0\<rparr>)" g0])
     (simp split: sum.splits)

lemma genpng_slices_plain:
  "genpng_slices cells False od name n0 n1 img ss w =
     (case genpng_slices cells False od name n0 n1 img ss (w\<lparr>rand := g0\<rparr>) of
        (e, w') \<Rightarrow> (e, w'\<lparr>rand := rand w\<rparr>))"
proof (induction ss arbitrary: w)
  case Nil
  show ?case by simp
next
  case (Cons s ss)
  obtain e w1 where step0: "genpng_slice cells False od name n0 n1 img s (w\<lparr>rand := g0\<rparr>) = (e, w1)"
    by (cases "genpng_slice cells False od name n0 n1 img s (w\<lparr>rand := g0\<rparr>)")
  then have step: "genpng_slice cells False od name n0 n1 img s w = (e, w1\<lparr>rand := rand w\<rparr>)"
    using genpng_slice_plain[of cells od name n0 n1 img s w g0] by simp
  show ?case
  proof (cases e)
    case (Some err)
    then show ?thesis using step0 step by simp
  next
    case None
    have "genpng_slices cells False od name n0 n1 img ss (w1\<lparr>rand := rand w\<rparr>) =
          (case genpng_slices cells False od name n0 n1 img ss (w1\<lparr>rand := rand w, rand := g0\<rparr>) of
             (e, w') \<Rightarrow> (e, w'\<lparr>rand := rand w\<rparr>))"
      using Cons.IH[of "w1\<lparr>rand := rand w\<rparr>"] by simp
    moreover have "genpng_slices cells False od name n0 n1 img ss w1 =
          (case genpng_slices cells False od name n0 n1 img ss (w1\<lparr>rand := g0\<rparr>) of
             (e, w') \<Rightarrow> (e, w'\<lparr>rand := rand w1\<rparr>))"
      by (rule Cons.IH)
    ultimately show ?thesis
      using None step0 step by (simp split: prod.splits)
  qed
qed

text \<open>
  C10. With the undersample flag not set, the run over a volume does not depend on the
  random source and leaves it as it was: two runs from the same file log produce the same
  outcome and the same log of saved files (names and pixel values, in order), whatever the
  state of the generator.
\<close>

theorem genpng_plain_deterministic:
  "fst (genpng_volume cells False od nii_file nii_img \<lparr>files = fs, rand = g\<rparr>)
     = fst (genpng_volume cells False od nii_file nii_img \<lparr>files = fs, rand = g'\<rparr>)
   \<and> files (snd (genpng_volume cells False od nii_file nii_img \<lparr>files = fs, rand = g\<rparr>))
     = files (snd (genpng_volume cells False od nii_file nii_img \<lparr>files = fs, rand = g'\<rparr>))
   \<and> rand (snd (genpng_volume cells False od nii_file nii_img \<lparr>files = fs, rand = g\<rparr>)) = g"
proof (cases "normalize_volume nii_img")
  case (Inl e)
  then show ?thesis by (simp add: genpng_volume_def)
next
  case (Inr img)
  show ?thesis
    using genpng_slices_plain[of cells od "volume_name nii_file" "shape0 nii_img" "shape1 nii_img" img
        "[slice_min..<slice_max]" "\<lparr>files = fs, rand = g\<rparr>" g']
    by (simp add: genpng_volume_def Inr Let_def split: prod.splits)
qed

section \<open>The loop over the depth window\<close>

lemma take_slice_array:
  assumes v: "is_array3 n0 n1 d img" and s: "s < d"
  shows "take_slice img s = Inr (map (map (\<lambda>line. line ! s)) img)
       \<and> is_array2 n0 n1 (map (map (\<lambda>line. line ! s)) img)"
proof -
  have "shape2 img = d" by (rule is_array3_shapes(3)[OF v])
  then have "take_slice img s = Inr (map (map (\<lambda>line. line ! s)) img)"
    using s by (simp add: take_slice_def)
  moreover have "is_array2 n0 n1 (map (map (\<lambda>line. line ! s)) img)"
  proof (rule is_array2_I)
    obtain p ps where "img = p # ps"
      using v by (cases img) (auto simp: is_array3_def)
    then show "0 < n1" using v by (simp add: is_array3_def is_array2_def)
    show "0 < n0" "length (map (map (\<lambda>line. line ! s)) img) = n0"
      using v by (simp_all add: is_array3_def)
    show "length (map (map (\<lambda>line. line ! s)) img ! i) = n1" if "i < n0" for i
      using v that by (simp add: is_array3_def is_array2_def list_all_length)
  qed
  ultimately show ?thesis by simp
qed

lemma clamp_and_scale_ieee_array:
  "is_array2 r c x \<Longrightarrow> is_array2 r c (clamp_and_scale_ieee x)"
  by (simp add: clamp_and_scale_ieee_def Let_def is_array2_def list_all_iff)

text \<open>
  On a canvas of finite samples the IEEE lines compute what \<open>clamp_and_scale\<close> computes.
\<close>

lemma clamp_and_scale_ieee_finite:
  "clamp_and_scale_ieee (map (map Num) canvas) = map (map Num) (clamp_and_scale canvas)"
proof -
  have "fp_times (fp_maximum (fp_minimum (Num v) (Num 1)) (Num 0)) (Num 255)
      = Num (max (min v 1) 0 * 255)" for v
    by (simp add: fp_minimum_def fp_maximum_def fp_times_def fp_le_def fp_rank_def
        fp_value_def fp_infinite_def fp_is_zero_def fp_finite_def fp_negative_def
        min_def max_def)
  then show ?thesis
    by (simp add: clamp_and_scale_ieee_def clamp_and_scale_def Let_def comp_def)
qed


lemma max_exceeds_one_nonempty:
  assumes "concat R \<noteq> []"
  shows "\<exists>b. max_exceeds_one R = Inr b"
  using np_max_nonempty[OF assms] by (auto simp: max_exceeds_one_def)

lemma is_array2_concat_nonempty:
  assumes "is_array2 r c x"
  shows "concat x \<noteq> []"
proof -
  obtain row rows where "x = row # rows"
    using assms by (cases x) (auto simp: is_array2_def)
  then show ?thesis using assms by (auto simp: is_array2_def)
qed




lemma genpng_slice_run:
  assumes run: "slice_raster cells us n0 n1 img s g = (Inr R, g')" and ne: "concat R \<noteq> []"
  shows "genpng_slice cells us od name n0 n1 img s \<lparr>files = fs, rand = g\<rparr> =
     (None, \<lparr>files = fs @ (if max_exceeds_one R = Inr True then [(outname od name s, R)] else []),
             rand = g'\<rparr>)"
  using max_exceeds_one_nonempty[OF ne] by (auto simp: genpng_slice_def run)

lemma genpng_slices_run:
  assumes run: "\<And>s. lo \<le> s \<Longrightarrow> s < hi \<Longrightarrow>
                  slice_raster cells us n0 n1 img s (G s) = (Inr (R s), G (Suc s))"
    and ne: "\<And>s. lo \<le> s \<Longrightarrow> s < hi \<Longrightarrow> concat (R s) \<noteq> []"
    and le: "lo \<le> hi"
  shows "genpng_slices cells us od name n0 n1 img [lo..<hi] \<lparr>files = fs, rand = G lo\<rparr> =
     (None, \<lparr>files = fs @ concat (map (\<lambda>s. if max_exceeds_one (R s) = Inr True
                                          then [(outname od name s, R s)] else []) [lo..<hi]),
             rand = G hi\<rparr>)"
  using assms
proof (induction "hi - lo" arbitrary: lo fs)
  case 0
  then have "lo = hi" by simp
  then show ?case by simp
next
  case (Suc k)
  then have lt: "lo < hi" by simp
  have step: "genpng_slice cells us od name n0 n1 img lo \<lparr>files = fs, rand = G lo\<rparr> =
     (None, \<lparr>files = fs @ (if max_exceeds_one (R lo) = Inr True then [(outname od name lo, R lo)] else []),
             rand = G (Suc lo)\<rparr>)"
    using Suc.prems(1)[of lo] Suc.prems(2)[of lo] lt by (intro genpng_slice_run) simp_all
  have rest: "genpng_slices cells us od name n0 n1 img [Suc lo..<hi]
        \<lparr>files = fs @ (if max_exceeds_one (R lo) = Inr True then [(outname od name lo, R lo)] else []),
         rand = G (Suc lo)\<rparr> =
     (None, \<lparr>files = (fs @ (if max_exceeds_one (R lo) = Inr True then [(outname od name lo, R lo)] else []))
               @ concat (map (\<lambda>s. if max_exceeds_one (R s) = Inr True
                                          then [(outname od name s, R s)] else []) [Suc lo..<hi]),
             rand = G hi\<rparr>)"
    using Suc.hyps(2) lt Suc.prems(1,2) by (intro Suc.hyps(1)) simp_all
  show ?case
    unfolding upt_conv_Cons[OF lt] genpng_slices.simps step
    by (simp only: prod.case option.case rest) simp
qed

section \<open>File names and the run over one volume\<close>



lemma window_run:
  assumes R: "\<forall>s. slice_min \<le> s \<and> s < hi \<longrightarrow>
          slice_raster cells us n0 n1 img s (rng_before us n0 n1 g s)
            = (Inr (R s), rng_before us n0 n1 g (Suc s))
          \<and> is_array2 OUT_RESOLUTION OUT_RESOLUTION (R s)"
    and le: "slice_min \<le> hi"
  shows "genpng_slices cells us od name n0 n1 img [slice_min..<hi] \<lparr>files = fs, rand = g\<rparr> =
      (None,
       \<lparr>files = fs @ concat (map (\<lambda>s. if max_exceeds_one (R s) = Inr True
                                        then [(outname od name s, R s)]
                                        else []) [slice_min..<hi]),
        rand = rng_before us n0 n1 g hi\<rparr>)"
proof -
  have g0: "rng_before us n0 n1 g slice_min = g"
    by (simp add: rng_before_def advance_def)
  have "genpng_slices cells us od name n0 n1 img [slice_min..<hi]
        \<lparr>files = fs, rand = rng_before us n0 n1 g slice_min\<rparr> =
      (None,
       \<lparr>files = fs @ concat (map (\<lambda>s. if max_exceeds_one (R s) = Inr True
                                        then [(outname od name s, R s)]
                                        else []) [slice_min..<hi]),
        rand = rng_before us n0 n1 g hi\<rparr>)"
  proof (rule genpng_slices_run[OF _ _ le])
    fix s assume "slice_min \<le> s" "s < hi"
    then show "slice_raster cells us n0 n1 img s (rng_before us n0 n1 g s)
            = (Inr (R s), rng_before us n0 n1 g (Suc s))"
      and "concat (R s) \<noteq> []"
      using R is_array2_concat_nonempty by blast+
  qed
  then show ?thesis unfolding g0 .
qed





text \<open>
  The other conditions of the amended claim are needed as well. A volume without samples
  makes \<^verbatim>\<open>np.max\<close> raise \<^verbatim>\<open>ValueError\<close>. A volume of 257 by 1 samples per depth index gets
  the border -1, Python selects the single last row of the canvas, and the assignment of
  257 rows to it raises \<^verbatim>\<open>ValueError\<close> at the first index of the window.
\<close>

lemma genpng_volume_empty_raises:
  "genpng_volume cells us od nii_file [] w = (Some ValueError, w)"
  by (simp add: genpng_volume_def normalize_volume_def np_max_def)

lemma composite_too_wide:
  assumes "is_array2 257 n1 slice"
  shows "composite 257 n1 slice = Inl ValueError"
proof -
  have "shape0 slice = 257" using assms by (rule is_array2_shape0)
  then show ?thesis
    by (simp add: composite_def set_region_def py_slice_def hborder_def OUT_RESOLUTION_def
        Let_def split_def)
qed

lemma genpng_volume_wide_raises:
  assumes v: "is_array3 257 n1 d nii_img" and d: "slice_min < d"
  shows "genpng_volume cells False od nii_file nii_img w = (Some ValueError, w)"
proof -
  obtain img where n: "normalize_volume nii_img = Inr img" and iv: "is_array3 257 n1 d img"
    using normalize_volume_array[OF v] by blast
  have ts: "take_slice img slice_min = Inr (map (map (\<lambda>line. line ! slice_min)) img)"
    and sl: "is_array2 257 n1 (map (map (\<lambda>line. line ! slice_min)) img)"
    using take_slice_array[OF iv d] by simp_all
  have "slice_raster cells False 257 n1 img slice_min (rand w) = (Inl ValueError, rand w)"
    by (simp add: slice_raster_def ts composite_too_wide[OF sl])
  then have "genpng_slice cells False od (volume_name nii_file) 257 n1 img slice_min w
      = (Some ValueError, w)"
    by (simp add: genpng_slice_def)
  moreover have "[slice_min..<slice_max] = slice_min # [Suc slice_min..<slice_max]"
    by (rule upt_conv_Cons) (simp add: slice_min_def slice_max_def)
  ultimately show ?thesis
    by (simp add: genpng_volume_def n Let_def is_array3_shapes(1,2)[OF v])
qed



section \<open>Two runs without the undersample flag, worked out\<close>

lemma fp_maximum_NaN_left [simp]: "fp_maximum NaN b = NaN"
  by (simp add: fp_maximum_def)

lemma foldl_fp_maximum_NaN: "foldl fp_maximum NaN xs = NaN"
  by (induction xs) simp_all

lemma fp_maximum_NaN_right: "a \<noteq> NaN \<Longrightarrow> fp_maximum a NaN = NaN"
  by (simp add: fp_maximum_def fp_le_def)

lemma foldl_fp_maximum_has_NaN:
  assumes "NaN \<in> set (a # xs)"
  shows "foldl fp_maximum a xs = NaN"
  using assms
proof (induction xs arbitrary: a)
  case Nil
  then show ?case by simp
next
  case (Cons b xs)
  show ?case
  proof (cases "a = NaN")
    case True
    then show ?thesis by (simp add: foldl_fp_maximum_NaN)
  next
    case False
    show ?thesis
    proof (cases "b = NaN")
      case True
      then show ?thesis using False by (simp add: fp_maximum_NaN_right foldl_fp_maximum_NaN)
    next
      case bn: False
      then have "NaN \<in> set xs" using Cons.prems False by auto
      then have "NaN \<in> set (fp_maximum a b # xs)" by simp
      then show ?thesis using Cons.IH[of "fp_maximum a b"] by simp
    qed
  qed
qed

lemma max_exceeds_one_NaN:
  assumes "NaN \<in> set (concat R)"
  shows "max_exceeds_one R = Inr False"
proof -
  obtain a xs where c: "concat R = a # xs" using assms by (cases "concat R") auto
  then have "np_max (concat R) = Inr NaN"
    using foldl_fp_maximum_has_NaN[of a xs] assms by (simp add: np_max_def)
  then show ?thesis
    by (simp add: max_exceeds_one_def fp_less_def fp_le_def)
qed

lemma fp_le_trans: "fp_le a b \<Longrightarrow> fp_le b c \<Longrightarrow> fp_le a c"
  by (auto simp: fp_le_def)

lemma fp_maximum_upper:
  assumes "a \<noteq> NaN" and "b \<noteq> NaN"
  shows "fp_maximum a b \<noteq> NaN" and "fp_le a (fp_maximum a b)" and "fp_le b (fp_maximum a b)"
  using assms by (auto simp: fp_maximum_def fp_le_def)

lemma foldl_fp_maximum_upper:
  assumes "NaN \<notin> set (a # xs)" and "x \<in> set (a # xs)"
  shows "foldl fp_maximum a xs \<noteq> NaN \<and> fp_le x (foldl fp_maximum a xs)"
  using assms
proof (induction xs arbitrary: a x)
  case Nil
  then show ?case by (auto simp: fp_le_def)
next
  case (Cons b xs)
  have ab: "a \<noteq> NaN" "b \<noteq> NaN" using Cons.prems(1) by auto
  note up = fp_maximum_upper[OF ab]
  have nn: "NaN \<notin> set (fp_maximum a b # xs)" using Cons.prems(1) up(1) by auto
  have top: "foldl fp_maximum (fp_maximum a b) xs \<noteq> NaN
      \<and> fp_le (fp_maximum a b) (foldl fp_maximum (fp_maximum a b) xs)"
    using Cons.IH[OF nn, of "fp_maximum a b"] by simp
  consider "x = a" | "x = b" | "x \<in> set xs" using Cons.prems(2) by auto
  then show ?case
  proof cases
    case 1
    then show ?thesis using top up(2) fp_le_trans by auto
  next
    case 2
    then show ?thesis using top up(3) fp_le_trans by auto
  next
    case 3
    then show ?thesis using Cons.IH[OF nn, of x] by simp
  qed
qed

lemma max_exceeds_one_bright:
  assumes "NaN \<notin> set (concat R)" and "Num y \<in> set (concat R)" and "1 < y"
  shows "max_exceeds_one R = Inr True"
proof -
  obtain a xs where c: "concat R = a # xs" using assms(2) by (cases "concat R") auto
  have "foldl fp_maximum a xs \<noteq> NaN \<and> fp_le (Num y) (foldl fp_maximum a xs)"
    using foldl_fp_maximum_upper[of a xs "Num y"] assms(1,2) c by simp
  then have "fp_less (Num 1) (foldl fp_maximum a xs)"
    using assms(3) by (auto simp: fp_less_def fp_le_def fp_rank_def fp_value_def split: fp.splits)
  then show ?thesis
    by (simp add: max_exceeds_one_def np_max_def c)
qed

lemma set_concat_array2:
  assumes "is_array2 r c x"
  shows "set (concat x) = {x ! i ! j | i j. i < r \<and> j < c}"
proof -
  have lx: "length x = r" using assms by (simp add: is_array2_def)
  have "set (concat x) = (\<Union>i<r. set (x ! i))"
    using lx by (auto simp: set_conv_nth[of x])
  also have "\<dots> = (\<Union>i<r. {x ! i ! j | j. j < c})"
    using is_array2_nth_length[OF assms] by (auto simp: set_conv_nth)
  finally show ?thesis by auto
qed

text \<open>
  The raster of a depth index without the undersample flag, cell by cell: the three lines
  of the Range Clamper on the sample of the slice inside the centred region and on zero
  outside.
\<close>

lemma slice_raster_plain_cells:
  assumes iv: "is_array3 n0 n1 d img" and fit: "n0 \<le> OUT_RESOLUTION" "n1 \<le> OUT_RESOLUTION"
    and s: "s < d"
  shows "\<exists>R. slice_raster cells False n0 n1 img s g = (Inr R, g)
      \<and> is_array2 OUT_RESOLUTION OUT_RESOLUTION R
      \<and> (\<forall>i<OUT_RESOLUTION. \<forall>j<OUT_RESOLUTION.
            R ! i ! j =
              fp_times (fp_maximum (fp_minimum
                (if in_region n0 i \<and> in_region n1 j
                 then img ! (i - (OUT_RESOLUTION - n0) div 2) ! (j - (OUT_RESOLUTION - n1) div 2) ! s
                 else Num 0) (Num 1)) (Num 0)) (Num 255))"
proof -
  define slice where "slice = map (map (\<lambda>line. line ! s)) img"
  have ts: "take_slice img s = Inr slice" and sl: "is_array2 n0 n1 slice"
    using take_slice_array[OF iv s] by (simp_all add: slice_def)
  obtain canvas where c: "composite n0 n1 slice = Inr canvas"
    and ca: "is_array2 OUT_RESOLUTION OUT_RESOLUTION canvas"
    and cells: "\<forall>i<OUT_RESOLUTION. \<forall>j<OUT_RESOLUTION.
                 canvas ! i ! j =
                   (if (OUT_RESOLUTION - n0) div 2 \<le> i \<and> i < (OUT_RESOLUTION - n0) div 2 + n0
                     \<and> (OUT_RESOLUTION - n1) div 2 \<le> j \<and> j < (OUT_RESOLUTION - n1) div 2 + n1
                    then slice ! (i - (OUT_RESOLUTION - n0) div 2) ! (j - (OUT_RESOLUTION - n1) div 2)
                    else 0)"
    using composite_cells[OF sl fit] by blast
  have run: "slice_raster cells False n0 n1 img s g = (Inr (clamp_and_scale_ieee canvas), g)"
    by (simp add: slice_raster_def ts c)
  have arr: "is_array2 OUT_RESOLUTION OUT_RESOLUTION (clamp_and_scale_ieee canvas)"
    by (rule clamp_and_scale_ieee_array[OF ca])
  have li: "length img = n0" using iv by (simp add: is_array3_def)
  have lp: "length (img ! a) = n1" if "a < n0" for a
    using iv that li by (simp add: is_array3_def is_array2_def list_all_length)
  have sc: "slice ! a ! b = img ! a ! b ! s" if "a < n0" "b < n1" for a b
    using that li lp by (simp add: slice_def)
  have "clamp_and_scale_ieee canvas ! i ! j =
      fp_times (fp_maximum (fp_minimum
        (if in_region n0 i \<and> in_region n1 j
         then img ! (i - (OUT_RESOLUTION - n0) div 2) ! (j - (OUT_RESOLUTION - n1) div 2) ! s
         else Num 0) (Num 1)) (Num 0)) (Num 255)"
    if "i < OUT_RESOLUTION" "j < OUT_RESOLUTION" for i j
  proof -
    have lc: "length canvas = OUT_RESOLUTION" "length (canvas ! i) = OUT_RESOLUTION"
      using ca is_array2_nth_length[OF ca that(1)] by (simp_all add: is_array2_def)
    have "clamp_and_scale_ieee canvas ! i ! j
        = fp_times (fp_maximum (fp_minimum (canvas ! i ! j) (Num 1)) (Num 0)) (Num 255)"
      using that lc by (simp add: clamp_and_scale_ieee_def Let_def)
    also have "canvas ! i ! j =
        (if in_region n0 i \<and> in_region n1 j
         then img ! (i - (OUT_RESOLUTION - n0) div 2) ! (j - (OUT_RESOLUTION - n1) div 2) ! s
         else Num 0)"
    proof -
      define inside where "inside \<longleftrightarrow>
        (OUT_RESOLUTION - n0) div 2 \<le> i \<and> i < (OUT_RESOLUTION - n0) div 2 + n0
          \<and> (OUT_RESOLUTION - n1) div 2 \<le> j \<and> j < (OUT_RESOLUTION - n1) div 2 + n1"
      have cv: "canvas ! i ! j =
          (if inside then slice ! (i - (OUT_RESOLUTION - n0) div 2) ! (j - (OUT_RESOLUTION - n1) div 2)
           else 0)"
        unfolding inside_def using cells that by blast
      have "canvas ! i ! j =
          (if inside then img ! (i - (OUT_RESOLUTION - n0) div 2) ! (j - (OUT_RESOLUTION - n1) div 2) ! s
           else Num 0)"
      proof (cases inside)
        case True
        then have "i - (OUT_RESOLUTION - n0) div 2 < n0" "j - (OUT_RESOLUTION - n1) div 2 < n1"
          unfolding inside_def by linarith+
        then show ?thesis using cv True sc by simp
      next
        case False
        then show ?thesis using cv by (simp add: zero_fp_def)
      qed
      then show ?thesis unfolding inside_def in_region_def by simp
    qed
    finally show ?thesis .
  qed
  with run arr show ?thesis by blast
qed

lemma clamp_cell_Num:
  "fp_times (fp_maximum (fp_minimum (Num v) (Num 1)) (Num 0)) (Num 255)
      = Num (max (min v 1) 0 * 255)"
  by (simp add: fp_minimum_def fp_maximum_def fp_times_def fp_le_def fp_rank_def
      fp_value_def fp_infinite_def fp_is_zero_def fp_finite_def fp_negative_def
      min_def max_def)

lemma clamp_cell_NaN:
  "fp_times (fp_maximum (fp_minimum NaN (Num 1)) (Num 0)) (Num 255) = NaN"
  by (simp add: fp_minimum_def fp_times_def)

lemma centred_cell:
  assumes "a < n0" and "n0 \<le> OUT_RESOLUTION"
  shows "(OUT_RESOLUTION - n0) div 2 + a < OUT_RESOLUTION"
    and "in_region n0 ((OUT_RESOLUTION - n0) div 2 + a)"
  using assms unfolding in_region_def by linarith+

text \<open>
  Without the undersample flag, a depth index whose slice holds a NaN is skipped, and a
  depth index whose slice is finite and holds a sample above 1/255 is saved.
\<close>

lemma nan_slice_skipped:
  assumes iv: "is_array3 n0 n1 d img" and fit: "n0 \<le> OUT_RESOLUTION" "n1 \<le> OUT_RESOLUTION"
    and s: "s < d" and nan: "a < n0" "b < n1" "img ! a ! b ! s = NaN"
  shows "\<exists>R. slice_raster cells False n0 n1 img s g = (Inr R, g)
      \<and> is_array2 OUT_RESOLUTION OUT_RESOLUTION R \<and> max_exceeds_one R = Inr False"
proof -
  obtain R where run: "slice_raster cells False n0 n1 img s g = (Inr R, g)"
    and arr: "is_array2 OUT_RESOLUTION OUT_RESOLUTION R"
    and cells: "\<forall>i<OUT_RESOLUTION. \<forall>j<OUT_RESOLUTION.
            R ! i ! j =
              fp_times (fp_maximum (fp_minimum
                (if in_region n0 i \<and> in_region n1 j
                 then img ! (i - (OUT_RESOLUTION - n0) div 2) ! (j - (OUT_RESOLUTION - n1) div 2) ! s
                 else Num 0) (Num 1)) (Num 0)) (Num 255)"
    using slice_raster_plain_cells[OF iv fit s, of cells g] by blast
  define i where "i = (OUT_RESOLUTION - n0) div 2 + a"
  define j where "j = (OUT_RESOLUTION - n1) div 2 + b"
  have ij: "i < OUT_RESOLUTION" "j < OUT_RESOLUTION" "in_region n0 i" "in_region n1 j"
    unfolding i_def j_def using centred_cell nan(1,2) fit by blast+
  have "R ! i ! j = NaN"
    using cells ij nan(3) by (simp add: i_def j_def clamp_cell_NaN)
  then have "NaN \<in> set (concat R)"
    unfolding set_concat_array2[OF arr] using ij by force
  then show ?thesis
    using run arr max_exceeds_one_NaN by blast
qed

lemma bright_slice_saved:
  assumes iv: "is_array3 n0 n1 d img" and fit: "n0 \<le> OUT_RESOLUTION" "n1 \<le> OUT_RESOLUTION"
    and s: "s < d"
    and fin: "\<And>a b. a < n0 \<Longrightarrow> b < n1 \<Longrightarrow> \<exists>y. img ! a ! b ! s = Num y"
    and bright: "a < n0" "b < n1" "img ! a ! b ! s = Num y" "1 / 255 < y"
  shows "\<exists>R. slice_raster cells False n0 n1 img s g = (Inr R, g)
      \<and> is_array2 OUT_RESOLUTION OUT_RESOLUTION R \<and> max_exceeds_one R = Inr True"
proof -
  obtain R where run: "slice_raster cells False n0 n1 img s g = (Inr R, g)"
    and arr: "is_array2 OUT_RESOLUTION OUT_RESOLUTION R"
    and cells: "\<forall>i<OUT_RESOLUTION. \<forall>j<OUT_RESOLUTION.
            R ! i ! j =
              fp_times (fp_maximum (fp_minimum
                (if in_region n0 i \<and> in_region n1 j
                 then img ! (i - (OUT_RESOLUTION - n0) div 2) ! (j - (OUT_RESOLUTION - n1) div 2) ! s
                 else Num 0) (Num 1)) (Num 0)) (Num 255)"
    using slice_raster_plain_cells[OF iv fit s, of cells g] by blast
  have num: "\<exists>z. R ! i ! j = Num z" if "i < OUT_RESOLUTION" "j < OUT_RESOLUTION" for i j
  proof -
    have rc: "R ! i ! j =
        fp_times (fp_maximum (fp_minimum
          (if in_region n0 i \<and> in_region n1 j
           then img ! (i - (OUT_RESOLUTION - n0) div 2) ! (j - (OUT_RESOLUTION - n1) div 2) ! s
           else Num 0) (Num 1)) (Num 0)) (Num 255)"
      using cells that by blast
    show ?thesis
    proof (cases "in_region n0 i \<and> in_region n1 j")
      case True
      then have "i - (OUT_RESOLUTION - n0) div 2 < n0" "j - (OUT_RESOLUTION - n1) div 2 < n1"
        unfolding in_region_def by linarith+
      then obtain z where
        "img ! (i - (OUT_RESOLUTION - n0) div 2) ! (j - (OUT_RESOLUTION - n1) div 2) ! s = Num z"
        using fin by blast
      then show ?thesis
        unfolding rc if_P[OF True] by (simp add: clamp_cell_Num)
    next
      case False
      show ?thesis
        unfolding rc if_not_P[OF False] by (simp add: clamp_cell_Num)
    qed
  qed
  have nonan: "NaN \<notin> set (concat R)"
    unfolding set_concat_array2[OF arr] using num by force
  define i where "i = (OUT_RESOLUTION - n0) div 2 + a"
  define j where "j = (OUT_RESOLUTION - n1) div 2 + b"
  have ij: "i < OUT_RESOLUTION" "j < OUT_RESOLUTION" "in_region n0 i" "in_region n1 j"
    unfolding i_def j_def using centred_cell bright(1,2) fit by blast+
  have "R ! i ! j = Num (max (min y 1) 0 * 255)"
    using cells ij bright(3) by (simp add: i_def j_def clamp_cell_Num)
  then have "Num (max (min y 1) 0 * 255) \<in> set (concat R)"
    unfolding set_concat_array2[OF arr] using ij by force
  moreover have "1 < max (min y 1) 0 * 255"
    using bright(4) by (simp add: min_def max_def)
  ultimately have "max_exceeds_one R = Inr True"
    using nonan max_exceeds_one_bright by blast
  then show ?thesis using run arr by blast
qed

lemma plain_window_run:
  assumes ok: "\<And>s. slice_min \<le> s \<Longrightarrow> s < slice_max \<Longrightarrow>
      \<exists>R. slice_raster cells False n0 n1 img s g = (Inr R, g)
        \<and> is_array2 OUT_RESOLUTION OUT_RESOLUTION R \<and> max_exceeds_one R = Inr b"
  shows "\<exists>R. genpng_slices cells False od name n0 n1 img [slice_min..<slice_max]
            \<lparr>files = fs, rand = g\<rparr> =
      (None,
       \<lparr>files = fs @ (if b then map (\<lambda>s. (outname od name s, R s)) [slice_min..<slice_max] else []),
        rand = g\<rparr>)"
proof -
  have "\<exists>R. slice_min \<le> s \<and> s < slice_max \<longrightarrow>
        slice_raster cells False n0 n1 img s g = (Inr R, g)
        \<and> is_array2 OUT_RESOLUTION OUT_RESOLUTION R \<and> max_exceeds_one R = Inr b" for s
    using ok[of s] by blast
  then obtain R where R: "\<And>s. slice_min \<le> s \<Longrightarrow> s < slice_max \<Longrightarrow>
        slice_raster cells False n0 n1 img s g = (Inr (R s), g)
        \<and> is_array2 OUT_RESOLUTION OUT_RESOLUTION (R s) \<and> max_exceeds_one (R s) = Inr b"
    by metis
  have rb: "rng_before False n0 n1 g s = g" for s
    by (simp add: rng_before_def)
  have le: "slice_min \<le> slice_max" by (simp add: slice_min_def slice_max_def)
  have "genpng_slices cells False od name n0 n1 img [slice_min..<slice_max]
            \<lparr>files = fs, rand = g\<rparr> =
      (None,
       \<lparr>files = fs @ concat (map (\<lambda>s. if max_exceeds_one (R s) = Inr True
                                        then [(outname od name s, R s)]
                                        else []) [slice_min..<slice_max]),
        rand = rng_before False n0 n1 g slice_max\<rparr>)"
    using R by (intro window_run le) (simp add: rb)
  moreover have "concat (map (\<lambda>s. if max_exceeds_one (R s) = Inr True
                                        then [(outname od name s, R s)]
                                        else []) [slice_min..<slice_max])
      = (if b then map (\<lambda>s. (outname od name s, R s)) [slice_min..<slice_max] else [])"
  proof (cases b)
    case True
    have eq: "map (\<lambda>s. if max_exceeds_one (R s) = Inr True then [(outname od name s, R s)] else [])
              [slice_min..<slice_max]
        = map (\<lambda>s. [(outname od name s, R s)]) [slice_min..<slice_max]"
      using R True by (intro map_cong refl) simp
    show ?thesis unfolding eq using True by simp
  next
    case False
    have eq: "map (\<lambda>s. if max_exceeds_one (R s) = Inr True then [(outname od name s, R s)] else [])
              [slice_min..<slice_max]
        = map (\<lambda>s. []) [slice_min..<slice_max]"
      using R False by (intro map_cong refl) simp
    show ?thesis unfolding eq using False by simp
  qed
  ultimately show ?thesis by (auto simp: rb)
qed

lemma astype_float32_0 [simp]: "astype_float32 0 = Num 0"
  by (simp add: astype_float32_def fp_round32_def round32_def FLT_MAX_def)

lemma normalize_volume_zeros:
  assumes v: "is_array3 n0 n1 d v"
    and zero: "list_all (list_all (list_all (\<lambda>x. x = 0))) v"
  shows "normalize_volume v = Inr (map (map (map (\<lambda>x. NaN))) v)"
proof -
  have elem: "x = 0" if "p \<in> set v" "l \<in> set p" "x \<in> set l" for p l x
    using zero that by (auto simp: list_all_iff)
  have c0: "astype_float32 x = Num 0" if "p \<in> set v" "l \<in> set p" "x \<in> set l" for p l x
    using elem[OF that] by simp
  have cast: "map (map (map astype_float32)) v = map (map (map (\<lambda>x. Num 0))) v"
    by (intro map_cong refl) (rule c0)
  have ne: "concat (concat v) \<noteq> []" by (rule is_array3_nonempty[OF v])
  have flat: "concat (concat (map (map (map (\<lambda>x. Num 0))) v))
      = map Num (map (\<lambda>x. 0) (concat (concat v)))"
    by (simp add: map_concat comp_def)
  have "set (map (\<lambda>x. 0::real) (concat (concat v))) = {0}"
    using ne by (cases "concat (concat v)") auto
  then have mx: "np_max (concat (concat (map (map (map astype_float32)) v))) = Inr (Num 0)"
    unfolding cast flat using np_max_Num[of "map (\<lambda>x. 0) (concat (concat v))"] ne by simp
  have q: "fp_divide32 (Num 0) (Num 0) = NaN"
    by (simp add: fp_divide32_def fp_infinite_def fp_is_zero_def fp_finite_def fp_value_def)
  show ?thesis
    apply (simp only: normalize_volume_def Let_def)
    apply (simp only: mx sum.case)
    apply (simp add: cast q comp_def)
    done
qed

text \<open>
  A volume of zeros: every normalised sample is NaN, every depth index of the window is
  skipped, nothing is raised and nothing is saved.
\<close>

lemma genpng_volume_zeros:
  assumes v: "is_array3 n0 n1 d nii_img"
    and fit: "n0 \<le> OUT_RESOLUTION" "n1 \<le> OUT_RESOLUTION"
    and d: "slice_max \<le> d"
    and zero: "list_all (list_all (list_all (\<lambda>x. x = 0))) nii_img"
  shows "genpng_volume cells False od nii_file nii_img \<lparr>files = fs, rand = g\<rparr>
           = (None, \<lparr>files = fs, rand = g\<rparr>)"
proof -
  define img :: "fp array3" where "img = map (map (map (\<lambda>x. NaN))) nii_img"
  have n: "normalize_volume nii_img = Inr img"
    unfolding img_def by (rule normalize_volume_zeros[OF v zero])
  have iv: "is_array3 n0 n1 d img"
    unfolding img_def by (rule is_array3_map[OF v])
  have pos: "0 < n0" "0 < n1"
    using v is_array3_nonempty[OF v] by (auto simp: is_array3_def is_array2_def list_all_iff)
  have l0: "length nii_img = n0" using v by (simp add: is_array3_def)
  have l1: "length (nii_img ! 0) = n1" "length (nii_img ! 0 ! 0) = d"
    using v pos l0 by (simp_all add: is_array3_def is_array2_def list_all_length)
  have cell: "img ! 0 ! 0 ! s = NaN" if "s < d" for s
    using that pos l0 l1 by (simp add: img_def)
  have "\<exists>R. slice_raster cells False n0 n1 img s g = (Inr R, g)
        \<and> is_array2 OUT_RESOLUTION OUT_RESOLUTION R \<and> max_exceeds_one R = Inr False"
    if "slice_min \<le> s" "s < slice_max" for s
  proof -
    have "s < d" using that(2) d by simp
    then show ?thesis
      using nan_slice_skipped[OF iv fit \<open>s < d\<close> pos cell] by blast
  qed
  then obtain R where "genpng_slices cells False od (volume_name nii_file) n0 n1 img
          [slice_min..<slice_max] \<lparr>files = fs, rand = g\<rparr> =
      (None,
       \<lparr>files = fs @ (if False then map (\<lambda>s. (outname od (volume_name nii_file) s, R s))
                                        [slice_min..<slice_max] else []),
        rand = g\<rparr>)"
    using plain_window_run[of cells n0 n1 img g False od "volume_name nii_file" fs] by blast
  then show ?thesis
    by (simp add: genpng_volume_def n Let_def is_array3_shapes(1,2)[OF v])
qed

lemma foldl_absorb:
  assumes "f a b = a"
  shows "foldl f a (replicate n b) = a"
  using assms by (induction n) simp_all

lemma astype_float32_255 [simp]: "astype_float32 255 = Num 255"
  by (simp add: astype_float32_def fp_round32_def FLT_MAX_def)

lemma astype_float32_1 [simp]: "astype_float32 1 = Num 1"
  by (simp add: astype_float32_def fp_round32_def FLT_MAX_def)

lemma normalize_volume_255_then_ones:
  "normalize_volume [[255 # replicate 124 1]]
     = Inr [[Num 1 # replicate 124 (Num (8421505 / 2 ^ 31))]]"
proof -
  have mx: "np_max (Num 255 # replicate 124 (Num 1)) = Inr (Num 255)"
    by (simp add: np_max_def foldl_absorb fp_maximum_Num)
  have q: "fp_divide32 (Num 255) (Num 255) = Num 1"
      "fp_divide32 (Num 1) (Num 255) = Num (8421505 / 2 ^ 31)"
    using fp_divide32_unit(1)[of 255 255] fp_divide32_unit(1)[of 1 255]
    by (simp_all add: round32_255th)
  show ?thesis
    by (simp add: normalize_volume_def mx q)
qed

text \<open>
  A volume with one sample per depth index, 255 at depth 0 and 1 elsewhere: the
  normalised sample of every depth index of the window is the single precision quotient
  8421505 / 2^31 of 1 by 255, its product with 255 exceeds 1, and all 100 indices are
  saved. In exact arithmetic the product would be 1 and nothing would be saved.
\<close>

lemma genpng_volume_255_then_ones:
  "\<exists>R. genpng_volume cells False od nii_file [[255 # replicate 124 1]] \<lparr>files = fs, rand = g\<rparr>
     = (None,
        \<lparr>files = fs @ map (\<lambda>s. (outname od (volume_name nii_file) s, R s)) [slice_min..<slice_max],
         rand = g\<rparr>)"
proof -
  define img where "img = [[Num 1 # replicate 124 (Num (8421505 / 2 ^ 31))]]"
  have n: "normalize_volume [[255 # replicate 124 1]] = Inr img"
    unfolding img_def by (rule normalize_volume_255_then_ones)
  have iv: "is_array3 1 1 125 img"
    by (simp add: img_def is_array3_def is_array2_def)
  have sh: "shape0 [[255 # replicate 124 (1::real)]] = 1" "shape1 [[255 # replicate 124 (1::real)]] = 1"
    by (simp_all add: shape0_def shape1_def)
  have cell: "img ! 0 ! 0 ! s = Num (8421505 / 2 ^ 31)" if "slice_min \<le> s" "s < slice_max" for s
  proof -
    have "0 < s" "s - 1 < 124" using that by (simp_all add: slice_min_def slice_max_def)
    then show ?thesis by (simp add: img_def nth_Cons')
  qed
  have "\<exists>R. slice_raster cells False 1 1 img s g = (Inr R, g)
        \<and> is_array2 OUT_RESOLUTION OUT_RESOLUTION R \<and> max_exceeds_one R = Inr True"
    if "slice_min \<le> s" "s < slice_max" for s
  proof (rule bright_slice_saved[OF iv, where a = 0 and b = 0 and y = "8421505 / 2 ^ 31"])
    show "1 \<le> OUT_RESOLUTION" "1 \<le> OUT_RESOLUTION" by (simp_all add: OUT_RESOLUTION_def)
    show "s < 125" using that(2) by (simp add: slice_max_def)
    show "\<exists>y. img ! a ! b ! s = Num y" if "a < 1" "b < 1" for a b
      using that cell[OF \<open>slice_min \<le> s\<close> \<open>s < slice_max\<close>]
      by (intro exI[of _ "8421505 / 2 ^ 31"]) simp
    show "(0::nat) < 1" "(0::nat) < 1" by simp_all
    show "img ! 0 ! 0 ! s = Num (8421505 / 2 ^ 31)" by (rule cell[OF that])
    show "(1::real) / 255 < 8421505 / 2 ^ 31" by simp
  qed
  then obtain R where "genpng_slices cells False od (volume_name nii_file) 1 1 img
          [slice_min..<slice_max] \<lparr>files = fs, rand = g\<rparr> =
      (None,
       \<lparr>files = fs @ (if True then map (\<lambda>s. (outname od (volume_name nii_file) s, R s))
                                        [slice_min..<slice_max] else []),
        rand = g\<rparr>)"
    using plain_window_run[of cells 1 1 img g True od "volume_name nii_file" fs] by blast
  then show ?thesis
    by (intro exI[of _ R]) (simp add: genpng_volume_def n Let_def sh)
qed

end
